theory Spec2Isabelle
  imports Complex_Main "HOL-Library.AList"
begin

section \<open>Errors and Python values\<close>

text \<open>
  Exceptions of the program are values. \<open>CvError\<close> is OpenCV's \<open>cv2.error\<close>.
  Python integers are unbounded (\<open>int\<close>).
\<close>

datatype error = TypeError | ValueError | ZeroDivisionError | CvError | OverflowError

text \<open>
  Python floats that take part in the geometry are IEEE doubles. A finite double is a pair
  \<open>(m, e)\<close> of a signed significand and an exponent: the number \<open>m * 2^e\<close>.
  \<open>round_pos n d\<close> is the double nearest to \<open>n / d\<close> for positive \<open>n\<close> and \<open>d\<close>
  (ties to the even significand, 53 bits, subnormals below \<open>2^-1022\<close>), and OverflowError
  when that is beyond the largest double. Times and rates stay idealised as \<open>real\<close>.
\<close>

type_synonym double = "int \<times> int"

text \<open>The number of binary digits of \<open>n\<close>.\<close>

fun bit_length :: "nat \<Rightarrow> nat" where
  "bit_length n = (if n = 0 then 0 else Suc (bit_length (n div 2)))"

declare bit_length.simps [simp del]

text \<open>\<open>n / d\<close> divided by \<open>2^e\<close>, as a fraction.\<close>

definition scaled :: "nat \<Rightarrow> nat \<Rightarrow> int \<Rightarrow> nat \<times> nat" where
  "scaled n d e = (if 0 \<le> e then (n, d * 2 ^ nat e) else (n * 2 ^ nat (- e), d))"

text \<open>The integer nearest to \<open>n / d\<close>, ties to even.\<close>

definition round_half_even :: "nat \<Rightarrow> nat \<Rightarrow> nat" where
  "round_half_even n d =
     (let q = n div d; r = n mod d
      in if 2 * r < d then q else if d < 2 * r then q + 1 else if even q then q else q + 1)"

text \<open>The integer part of the binary logarithm of \<open>n / d\<close>.\<close>

definition floor_log2 :: "nat \<Rightarrow> nat \<Rightarrow> int" where
  "floor_log2 n d =
     (let s = int (bit_length n) - int (bit_length d); (p, q) = scaled n d s
      in if q \<le> p then s else s - 1)"

definition round_pos :: "nat \<Rightarrow> nat \<Rightarrow> error + nat \<times> int" where
  "round_pos n d =
     (let e = max (floor_log2 n d - 52) (- 1074);
          (p, q) = scaled n d e;
          m = round_half_even p q
      in if 0 \<le> e \<and> 2 ^ 1024 \<le> m * 2 ^ nat e then Inl OverflowError else Inr (m, e))"

text \<open>The double nearest to \<open>n / d\<close> for any integer \<open>n\<close>.\<close>

definition round_rat :: "int \<Rightarrow> nat \<Rightarrow> error + double" where
  "round_rat n d =
     (if n = 0 then Inr (0, 0)
      else case round_pos (nat \<bar>n\<bar>) d of
             Inl err \<Rightarrow> Inl err
           | Inr (m, e) \<Rightarrow> Inr (sgn n * int m, e))"

text \<open>\<open>a / b\<close> on two integers: correctly rounded, ZeroDivisionError, OverflowError.\<close>

definition py_truediv :: "int \<Rightarrow> int \<Rightarrow> error + double" where
  "py_truediv a b =
     (if b = 0 then Inl ZeroDivisionError else round_rat (a * sgn b) (nat \<bar>b\<bar>))"

text \<open>\<open>int(x)\<close> on a finite float: truncation towards zero.\<close>

definition py_int_of_double :: "double \<Rightarrow> int" where
  "py_int_of_double x =
     (case x of (m, e) \<Rightarrow>
        if 0 \<le> e then m * 2 ^ nat e else sgn m * (\<bar>m\<bar> div 2 ^ nat (- e)))"

text \<open>
  \<open>n * x\<close> for an integer and a float: the integer is converted (OverflowError when too
  large), the product is rounded. A product beyond the largest double is infinite in
  Python, and the \<open>int\<close> that the code applies to it raises OverflowError: the model
  reports that error here.
\<close>

definition int_times_double :: "int \<Rightarrow> double \<Rightarrow> error + double" where
  "int_times_double n x =
     (case round_rat n 1 of
        Inl err \<Rightarrow> Inl err
      | Inr (m1, e1) \<Rightarrow>
         (case x of (m, e) \<Rightarrow>
            if 0 \<le> e1 + e then round_rat (m1 * m * 2 ^ nat (e1 + e)) 1
            else round_rat (m1 * m) (2 ^ nat (- (e1 + e)))))"

text \<open>Truncation towards zero of an exact quotient.\<close>

definition py_int_of_float :: "real \<Rightarrow> int" where
  "py_int_of_float x = (if 0 \<le> x then \<lfloor>x\<rfloor> else \<lceil>x\<rceil>)"

section \<open>Images (numpy arrays of shape (h, w, 3), dtype uint8)\<close>

text \<open>
  An image is the expression that built it: its shape is computed, its pixels are given
  by provenance. \<open>Decoded h w k\<close> is a frame decoded from a camera (opaque content
  \<open>k\<close>); \<open>Resized f w h\<close> is the result of \<open>cv2.resize(f, (w, h))\<close>;
  \<open>PutText f s org colour\<close> is \<open>f\<close> after \<open>cv2.putText\<close>;
  \<open>Paste c y1 y2 x1 x2 f\<close> is \<open>c\<close> after \<open>c[y1:y2, x1:x2] = f\<close>
  (indices already clipped to the canvas).
\<close>

datatype overlay = Text string | FpsText real

datatype img =
    Zeros nat nat
  | Decoded nat nat nat
  | Resized img nat nat
  | PutText img overlay "int \<times> int" "nat \<times> nat \<times> nat"
  | Paste img nat nat nat nat img

fun shape :: "img \<Rightarrow> nat \<times> nat" where
  "shape (Zeros h w) = (h, w)"
| "shape (Decoded h w k) = (h, w)"
| "shape (Resized f w h) = (h, w)"
| "shape (PutText f s org colour) = shape f"
| "shape (Paste c y1 y2 x1 x2 f) = shape c"

text \<open>An image all of whose pixels are zero (area interpolation of zeros is zero).\<close>

fun blank :: "img \<Rightarrow> bool" where
  "blank (Zeros h w) = True"
| "blank (Resized f w h) = blank f"
| "blank f = False"

text \<open>
  The image that last wrote pixel \<open>(y, x)\<close> of a canvas by slice assignment;
  \<open>None\<close> when the pixel was never written (it still holds what the canvas was
  created with).
\<close>

fun pixel_src :: "img \<Rightarrow> nat \<Rightarrow> nat \<Rightarrow> img option" where
  "pixel_src (Paste c y1 y2 x1 x2 f) y x =
     (if y1 \<le> y \<and> y < y2 \<and> x1 \<le> x \<and> x < x2 then Some f else pixel_src c y x)"
| "pixel_src f y x = None"

text \<open>The slice assignments made on a canvas, oldest first.\<close>

fun pastes :: "img \<Rightarrow> ((nat \<times> nat \<times> nat \<times> nat) \<times> img) list" where
  "pastes (Paste c y1 y2 x1 x2 f) = pastes c @ [((y1, y2, x1, x2), f)]"
| "pastes f = []"

text \<open>\<open>np.zeros((h, w, 3), np.uint8)\<close>: negative dimensions raise ValueError.\<close>

definition np_zeros :: "int \<Rightarrow> int \<Rightarrow> error + img" where
  "np_zeros h w = (if h < 0 \<or> w < 0 then Inl ValueError else Inr (Zeros (nat h) (nat w)))"

text \<open>
  \<open>cv2.resize(f, (w, h), interpolation=cv2.INTER_AREA)\<close>: an empty source or a
  destination size with a non-positive component fails OpenCV's assertions.
\<close>

definition cv2_resize :: "img \<Rightarrow> int \<Rightarrow> int \<Rightarrow> error + img" where
  "cv2_resize f w h =
     (if fst (shape f) = 0 \<or> snd (shape f) = 0 \<or> w \<le> 0 \<or> h \<le> 0 then Inl CvError
      else Inr (Resized f (nat w) (nat h)))"

text \<open>
  \<open>cv2.putText(f, s, org, font, scale, colour, 2, cv2.LINE_AA)\<close> writes on \<open>f\<close>; on an
  empty array it raises. \<open>cv2.imencode\<close> raises on an empty array too; otherwise the
  encoder \<open>enc\<close> gives the bytes, or None when it fails.
\<close>

definition cv2_putText :: "img \<Rightarrow> overlay \<Rightarrow> int \<times> int \<Rightarrow> nat \<times> nat \<times> nat \<Rightarrow> error + img" where
  "cv2_putText f s org colour =
     (if fst (shape f) = 0 \<or> snd (shape f) = 0 then Inl CvError
      else Inr (PutText f s org colour))"

definition cv2_imencode :: "(img \<Rightarrow> int \<Rightarrow> string option) \<Rightarrow> img \<Rightarrow> int \<Rightarrow> error + string option" where
  "cv2_imencode enc f q =
     (if fst (shape f) = 0 \<or> snd (shape f) = 0 then Inl CvError else Inr (enc f q))"

text \<open>
  A Python slice \<open>a:b\<close> on an axis of length \<open>n\<close>: negative indices count from the
  end, both ends are clipped to the axis, an inverted slice is empty.
\<close>

definition py_slice :: "int \<Rightarrow> int \<Rightarrow> nat \<Rightarrow> nat \<times> nat" where
  "py_slice a b n =
     (let norm = (\<lambda>i. if i < 0 then max 0 (i + int n) else min i (int n));
          s = norm a; e = norm b
      in (nat s, nat (max s e)))"

text \<open>
  \<open>canvas[y1:y2, x1:x2] = f\<close>: the value must broadcast to the shape of the target slice
  (each axis equal to the slice's, or of length one), otherwise ValueError.
\<close>

definition set_slice :: "img \<Rightarrow> int \<Rightarrow> int \<Rightarrow> int \<Rightarrow> int \<Rightarrow> img \<Rightarrow> error + img" where
  "set_slice canvas y1 y2 x1 x2 f =
     (let (ys, ye) = py_slice y1 y2 (fst (shape canvas));
          (xs, xe) = py_slice x1 x2 (snd (shape canvas));
          (hh, ww) = shape f
      in if (hh = ye - ys \<or> hh = 1) \<and> (ww = xe - xs \<or> ww = 1)
         then Inr (Paste canvas ys ye xs xe f) else Inl ValueError)"

section \<open>Compositor\<close>

text \<open>A frame accessor: called with no argument, returns a frame or None.\<close>

type_synonym getter = "unit \<Rightarrow> img option"

text \<open>\<open>[f for f in frames if f is not None]\<close>\<close>

fun not_none :: "'a option list \<Rightarrow> 'a list" where
  "not_none [] = []"
| "not_none (None # fs) = not_none fs"
| "not_none (Some f # fs) = f # not_none fs"

text \<open>Python's \<open>max\<close> of a sequence: ValueError on the empty one.\<close>

fun py_max :: "nat list \<Rightarrow> error + nat" where
  "py_max [] = Inl ValueError"
| "py_max (x # xs) = Inr (fold max xs x)"

text \<open>The loop of \<open>mosaic_getter_row\<close>: paste each frame at column \<open>x\<close>, advance.\<close>

fun row_paste :: "img \<Rightarrow> int \<Rightarrow> img list \<Rightarrow> error + img" where
  "row_paste canvas x [] = Inr canvas"
| "row_paste canvas x (f # fs) =
     (let hh = fst (shape f); ww = snd (shape f) in
      case set_slice canvas 0 (int hh) x (x + int ww) f of
        Inl e \<Rightarrow> Inl e
      | Inr canvas' \<Rightarrow> row_paste canvas' (x + int ww) fs)"

definition mosaic_getter_row :: "getter list \<Rightarrow> unit \<Rightarrow> error + img option" where
  "mosaic_getter_row getters = (\<lambda>_.
     let frames = not_none (map (\<lambda>g. g ()) getters) in
     if frames = [] then Inr None
     else case py_max (map (\<lambda>f. fst (shape f)) frames) of
       Inl e \<Rightarrow> Inl e
     | Inr h \<Rightarrow>
        (let w = sum_list (map (\<lambda>f. snd (shape f)) frames) in
         case np_zeros (int h) (int w) of
           Inl e \<Rightarrow> Inl e
         | Inr canvas \<Rightarrow>
            (case row_paste canvas 0 frames of
               Inl e \<Rightarrow> Inl e
             | Inr c \<Rightarrow> Inr (Some c))))"

text \<open>
  \<open>cell_w = int(cell_h * 16/9)\<close>. \<open>py_cell_w\<close> is the line as Python runs it: the
  product is an integer, the division gives a float. \<open>cell_width\<close> is the same line with
  the quotient taken exactly; the two agree for every cell height below \<open>9 * 2^46\<close> in
  absolute value (lemma \<open>py_cell_w_exact\<close>), which is beyond every height for which a
  canvas can be allocated, and the compositor below is written with \<open>cell_width\<close>.
\<close>

definition py_cell_w :: "int \<Rightarrow> error + int" where
  "py_cell_w cell_h =
     (case py_truediv (cell_h * 16) 9 of Inl err \<Rightarrow> Inl err | Inr x \<Rightarrow> Inr (py_int_of_double x))"

definition cell_width :: "int \<Rightarrow> int" where
  "cell_width cell_h = py_int_of_float (real_of_int (cell_h * 16) / 9)"

text \<open>
  \<open>[f if f is not None else np.zeros((cell_h, cell_w, 3), np.uint8) for f in frames]\<close>,
  left to right; the first failing \<open>np.zeros\<close> raises.
\<close>

fun fill_blanks :: "int \<Rightarrow> int \<Rightarrow> img option list \<Rightarrow> error + img list" where
  "fill_blanks cell_h cell_w [] = Inr []"
| "fill_blanks cell_h cell_w (Some f # fs) =
     (case fill_blanks cell_h cell_w fs of Inl e \<Rightarrow> Inl e | Inr r \<Rightarrow> Inr (f # r))"
| "fill_blanks cell_h cell_w (None # fs) =
     (case np_zeros cell_h cell_w of
        Inl e \<Rightarrow> Inl e
      | Inr z \<Rightarrow> (case fill_blanks cell_h cell_w fs of Inl e \<Rightarrow> Inl e | Inr r \<Rightarrow> Inr (z # r)))"

text \<open>\<open>math.ceil(n / cols)\<close>\<close>

definition ceil_div :: "nat \<Rightarrow> int \<Rightarrow> error + int" where
  "ceil_div n cols =
     (if cols = 0 then Inl ZeroDivisionError else Inr \<lceil>real n / real_of_int cols\<rceil>)"

text \<open>The loop of \<open>mosaic_getter_grid\<close> over \<open>enumerate(frames)\<close>.\<close>

fun grid_paste :: "int \<Rightarrow> int \<Rightarrow> int \<Rightarrow> img \<Rightarrow> (nat \<times> img) list \<Rightarrow> error + img" where
  "grid_paste cols cell_w cell_h canvas [] = Inr canvas"
| "grid_paste cols cell_w cell_h canvas ((i, f) # rest) =
     (if cols = 0 then Inl ZeroDivisionError
      else let r = int i div cols; c = int i mod cols in
        case cv2_resize f cell_w cell_h of
          Inl e \<Rightarrow> Inl e
        | Inr fr \<Rightarrow>
           (case set_slice canvas (r * cell_h) ((r + 1) * cell_h)
                                  (c * cell_w) ((c + 1) * cell_w) fr of
              Inl e \<Rightarrow> Inl e
            | Inr canvas' \<Rightarrow> grid_paste cols cell_w cell_h canvas' rest))"

definition mosaic_getter_grid :: "getter list \<Rightarrow> int \<Rightarrow> int \<Rightarrow> unit \<Rightarrow> error + img option" where
  "mosaic_getter_grid getters cols cell_h = (\<lambda>_.
     let cell_w = cell_width cell_h in
     case fill_blanks cell_h cell_w (map (\<lambda>g. g ()) getters) of
       Inl e \<Rightarrow> Inl e
     | Inr frames \<Rightarrow>
        (if frames = [] then Inr None
         else (case ceil_div (length frames) cols of
           Inl e \<Rightarrow> Inl e
         | Inr rows \<Rightarrow>
            (case np_zeros (rows * cell_h) (cols * cell_w) of
               Inl e \<Rightarrow> Inl e
             | Inr canvas \<Rightarrow>
                (case grid_paste cols cell_w cell_h canvas (enumerate 0 frames) of
                   Inl e \<Rightarrow> Inl e
                 | Inr c \<Rightarrow> Inr (Some c))))))"

section \<open>Channel lists and connection targets\<close>

text \<open>
  The values \<open>start_streams\<close> can receive as \<open>channels\<close>: integers, strings of ASCII
  characters, None, and lists, tuples and sets of such values (a set as the list of its
  elements in iteration order). Strings with other characters, which Python's \<open>int\<close>
  may also read as digits or blanks, are outside the model.
\<close>

datatype pyval =
    PyInt int
  | PyStr string
  | PyNone
  | PyList "pyval list"
  | PyTuple "pyval list"
  | PySet "pyval list"

definition is_space :: "char \<Rightarrow> bool" where
  "is_space c = (c \<in> set [CHR '' '', CHR 0x09, CHR 0x0A, CHR 0x0B, CHR 0x0C, CHR 0x0D])"

definition in_range :: "char \<Rightarrow> char \<Rightarrow> char \<Rightarrow> bool" where
  "in_range lo hi c = ((of_char lo :: nat) \<le> of_char c \<and> (of_char c :: nat) \<le> of_char hi)"

definition is_digit :: "char \<Rightarrow> bool" where
  "is_digit c = in_range CHR ''0'' CHR ''9'' c"

definition digit_val :: "char \<Rightarrow> nat" where
  "digit_val c = of_char c - of_char CHR ''0''"

text \<open>
  Decimal digits, single underscores allowed between two digits (\<open>prev\<close>: the previous
  character was a digit).
\<close>

fun parse_digits :: "bool \<Rightarrow> nat \<Rightarrow> string \<Rightarrow> nat option" where
  "parse_digits prev acc [] = (if prev then Some acc else None)"
| "parse_digits prev acc (c # cs) =
     (if is_digit c then parse_digits True (acc * 10 + digit_val c) cs
      else if c = CHR ''_'' \<and> prev then parse_digits False acc cs
      else None)"

text \<open>\<open>int(s)\<close> on an ASCII string: surrounding whitespace, an optional sign, digits.\<close>

definition int_of_str :: "string \<Rightarrow> int option" where
  "int_of_str s =
     (case dropWhile is_space (rev (dropWhile is_space (rev s))) of
        [] \<Rightarrow> None
      | c # cs \<Rightarrow>
         if c = CHR ''-'' then map_option (\<lambda>n. - int n) (parse_digits False 0 cs)
         else if c = CHR ''+'' then map_option int (parse_digits False 0 cs)
         else map_option int (parse_digits False 0 (c # cs)))"

text \<open>\<open>int(x)\<close>\<close>

fun py_int :: "pyval \<Rightarrow> error + int" where
  "py_int (PyInt i) = Inr i"
| "py_int (PyStr s) = (case int_of_str s of None \<Rightarrow> Inl ValueError | Some i \<Rightarrow> Inr i)"
| "py_int v = Inl TypeError"

text \<open>\<open>tuple(int(x) for x in chs)\<close>: the first element that fails raises.\<close>

fun ints_of :: "pyval list \<Rightarrow> error + int list" where
  "ints_of [] = Inr []"
| "ints_of (x # xs) =
     (case py_int x of
        Inl e \<Rightarrow> Inl e
      | Inr i \<Rightarrow> (case ints_of xs of Inl e \<Rightarrow> Inl e | Inr r \<Rightarrow> Inr (i # r)))"

fun coerce_channels :: "pyval \<Rightarrow> error + int list" where
  "coerce_channels (PyInt i) = Inr [i]"
| "coerce_channels (PyList xs) = ints_of xs"
| "coerce_channels (PyTuple xs) = ints_of xs"
| "coerce_channels (PySet xs) = ints_of xs"
| "coerce_channels v = Inl TypeError"

text \<open>\<open>str(n)\<close> for the f-strings.\<close>

fun nat_str :: "nat \<Rightarrow> string" where
  "nat_str n =
     (if n < 10 then [char_of (of_char CHR ''0'' + n)]
      else nat_str (n div 10) @ [char_of (of_char CHR ''0'' + n mod 10)])"

definition int_str :: "int \<Rightarrow> string" where
  "int_str i = (if i < 0 then CHR ''-'' # nat_str (nat (- i)) else nat_str (nat i))"

text \<open>
  \<open>urllib.parse.quote(s, safe="")\<close> on the UTF-8 bytes of \<open>s\<close>: letters, digits and
  \<open>_.-~\<close> stay, every other byte becomes \<open>%XX\<close>.
\<close>

definition unreserved :: "char \<Rightarrow> bool" where
  "unreserved c =
     (in_range CHR ''a'' CHR ''z'' c \<or> in_range CHR ''A'' CHR ''Z'' c \<or> is_digit c
      \<or> c \<in> set ''_.-~'')"

definition hex_digit :: "nat \<Rightarrow> char" where
  "hex_digit n = ''0123456789ABCDEF'' ! (n mod 16)"

definition quote :: "string \<Rightarrow> string" where
  "quote s =
     concat (map (\<lambda>c. if unreserved c then [c]
                       else [CHR ''%'', hex_digit (of_char c div 16), hex_digit (of_char c)]) s)"

definition make_rtsp_url :: "string \<Rightarrow> string \<Rightarrow> string \<Rightarrow> int \<Rightarrow> int \<Rightarrow> string" where
  "make_rtsp_url ip_addr usr pwd channel sub =
     ''rtsp://'' @ quote usr @ '':'' @ quote pwd @ ''@'' @ ip_addr
       @ '':554/cam/realmonitor?channel='' @ int_str channel @ ''&subtype='' @ int_str sub"

section \<open>Capture actor\<close>

text \<open>
  A \<open>cv2.VideoCapture\<close> handle is opened or not; \<open>release\<close> closes it. What the
  network does is an input of each step: the outcome of an open, the result of a read on
  an opened handle, and the two readings of \<open>time.time()\<close> of a failed iteration.
\<close>

datatype video_capture = VideoCapture (is_opened: bool)

datatype open_result = Connected | NotConnected | OpenRaised

datatype phase = Created | Started | Looping | Exited | Crashed error

record capture_thread =
  name :: string
  url :: string
  label :: string
  target_h :: int
  ffmpeg_timeout_ms :: int
  reconnect_delay_s :: real
  frame :: "img option"
  stop_flag :: bool
  cap :: "video_capture option"
  phase :: phase
  last_try :: real

record world =
  open_result :: open_result
  read_result :: "bool \<times> img option"
  now1 :: real
  now2 :: real

datatype event = Released | Opened open_result | Published img | Slept real

text \<open>
  \<open>CaptureThread.__init__\<close>; the value it writes to
  \<open>OPENCV_FFMPEG_CAPTURE_OPTIONS\<close> is \<open>ffmpeg_options\<close>.
\<close>

definition ffmpeg_options :: "bool \<Rightarrow> int \<Rightarrow> string option" where
  "ffmpeg_options tcp timeout_ms =
     (let opts = (if tcp then [''rtsp_transport;tcp''] else [])
               @ (if timeout_ms \<noteq> 0 \<and> timeout_ms > 0
                  then [''stimeout;'' @ int_str timeout_ms, ''max_delay;'' @ int_str timeout_ms]
                  else [])
      in case opts of
           [] \<Rightarrow> None
         | x # xs \<Rightarrow> Some (x @ concat (map (\<lambda>y. ''|'' @ y) xs)))"

definition CaptureThread :: "string \<Rightarrow> string \<Rightarrow> string \<Rightarrow> int \<Rightarrow> capture_thread" where
  "CaptureThread nm u lbl th =
     \<lparr>name = nm, url = u, label = lbl, target_h = th, ffmpeg_timeout_ms = 5000000,
      reconnect_delay_s = 2, frame = None, stop_flag = False, cap = None,
      phase = Created, last_try = 0\<rparr>"

text \<open>
  \<open>_open\<close>: the old handle, if any, is released and dropped; an exception of the
  constructor leaves no handle. \<open>open_events\<close> is what a call of \<open>_open\<close> does to the
  network: the release of the old handle, then the open.
\<close>

definition open_events :: "open_result \<Rightarrow> capture_thread \<Rightarrow> event list" where
  "open_events r t = (if cap t = None then [] else [Released]) @ [Opened r]"

definition open_cap :: "open_result \<Rightarrow> capture_thread \<Rightarrow> capture_thread" where
  "open_cap r t =
     t\<lparr>cap := (case r of
                 Connected \<Rightarrow> Some (VideoCapture True)
               | NotConnected \<Rightarrow> Some (VideoCapture False)
               | OpenRaised \<Rightarrow> None)\<rparr>"

text \<open>\<open>_resize_h\<close>\<close>

definition resize_h :: "img \<Rightarrow> int \<Rightarrow> error + img" where
  "resize_h im h =
     (case py_truediv h (int (max 1 (fst (shape im)))) of
        Inl err \<Rightarrow> Inl err
      | Inr r \<Rightarrow>
         (case int_times_double (int (snd (shape im))) r of
            Inl err \<Rightarrow> Inl err
          | Inr p \<Rightarrow> cv2_resize im (py_int_of_double p) h))"

text \<open>\<open>self.cap.read() if self.cap is not None else (False, None)\<close>\<close>

definition cap_read :: "world \<Rightarrow> capture_thread \<Rightarrow> bool \<times> img option" where
  "cap_read w t =
     (case cap t of
        None \<Rightarrow> (False, None)
      | Some c \<Rightarrow> if is_opened c then read_result w else (False, None))"

text \<open>The branch \<open>if not ok or frame is None\<close> of the loop body.\<close>

definition on_read_failure :: "world \<Rightarrow> capture_thread \<Rightarrow> event list \<times> capture_thread" where
  "on_read_failure w t =
     (let reopen = (now1 w - last_try t \<ge> reconnect_delay_s t);
          t1 = (if reopen then (open_cap (open_result w) t)\<lparr>last_try := now2 w\<rparr> else t);
          ev = (if reopen then open_events (open_result w) t else [])
      in case np_zeros (target_h t1) (target_h t1) of
           Inl e \<Rightarrow> (ev, t1\<lparr>phase := Crashed e\<rparr>)
         | Inr z \<Rightarrow>
            (case cv2_putText z (Text (label t1 @ '' (reconectando...)'')) (10, 30) (0, 0, 255) of
               Inl e \<Rightarrow> (ev, t1\<lparr>phase := Crashed e\<rparr>)
             | Inr ph \<Rightarrow> (ev @ [Published ph, Slept 0.05], t1\<lparr>frame := Some ph\<rparr>)))"

text \<open>The rest of the loop body, on a frame read.\<close>

definition on_frame :: "img \<Rightarrow> capture_thread \<Rightarrow> event list \<times> capture_thread" where
  "on_frame im t =
     (case resize_h im (target_h t) of
        Inl e \<Rightarrow> ([], t\<lparr>phase := Crashed e\<rparr>)
      | Inr fr \<Rightarrow>
         (case cv2_putText fr (Text (label t)) (10, 30) (0, 255, 0) of
            Inl e \<Rightarrow> ([], t\<lparr>phase := Crashed e\<rparr>)
          | Inr fr' \<Rightarrow> ([Published fr'], t\<lparr>frame := Some fr'\<rparr>)))"

definition iteration :: "world \<Rightarrow> capture_thread \<Rightarrow> event list \<times> capture_thread" where
  "iteration w t =
     (case cap_read w t of
        (True, Some im) \<Rightarrow> on_frame im t
      | _ \<Rightarrow> on_read_failure w t)"

text \<open>
  One scheduling step of the thread running \<open>run\<close>: the statements before the loop, then
  one test of \<open>while not self.stop_flag\<close> with the body it guards.
\<close>

definition run_step :: "world \<Rightarrow> capture_thread \<Rightarrow> event list \<times> capture_thread" where
  "run_step w t =
     (case phase t of
        Started \<Rightarrow>
          (open_events (open_result w) t,
           (open_cap (open_result w) t)\<lparr>last_try := 0, phase := Looping\<rparr>)
      | Looping \<Rightarrow> if stop_flag t then ([], t\<lparr>phase := Exited\<rparr>) else iteration w t
      | _ \<Rightarrow> ([], t))"

fun run :: "world list \<Rightarrow> capture_thread \<Rightarrow> event list \<times> capture_thread" where
  "run [] t = ([], t)"
| "run (w # ws) t =
     (let (ev, t') = run_step w t; (evs, t'') = run ws t' in (ev @ evs, t''))"

definition get_frame :: "capture_thread \<Rightarrow> img option" where
  "get_frame t = frame t"

definition stop :: "capture_thread \<Rightarrow> capture_thread" where
  "stop t = t\<lparr>stop_flag := True, cap := map_option (\<lambda>c. VideoCapture False) (cap t)\<rparr>"

text \<open>\<open>Thread.start\<close>\<close>

definition start :: "capture_thread \<Rightarrow> capture_thread" where
  "start t = t\<lparr>phase := Started\<rparr>"

section \<open>Global stream state\<close>

text \<open>
  \<open>StreamState\<close>. The two dictionaries keep insertion order and hold references to
  thread objects: a reference is an index into \<open>actors\<close>, the list of all capture threads
  created so far. A getter \<open>t.get_frame\<close> is the reference to \<open>t\<close>.
\<close>

record config =
  cfg_ip :: string
  cfg_user :: string
  cfg_password :: string
  cfg_channels :: "int list"
  cfg_subtype :: int
  cfg_target_height :: int

record stream_state =
  threads :: "(int \<times> nat) list"
  getters :: "(int \<times> nat) list"
  config :: config
  actors :: "capture_thread list"
  environ :: "string option"

definition StreamState :: stream_state where
  "StreamState =
     \<lparr>threads = [], getters = [],
      config = \<lparr>cfg_ip = ''192.168.0.18'', cfg_user = ''admin'', cfg_password = ''arenna@123'',
                cfg_channels = [1, 2], cfg_subtype = 0, cfg_target_height = 360\<rparr>,
      actors = [], environ = None\<rparr>"

text \<open>\<open>stop_all_locked\<close>: \<open>t.stop()\<close> for every value of \<open>self.threads\<close>.\<close>

definition stop_actor :: "nat \<Rightarrow> capture_thread list \<Rightarrow> capture_thread list" where
  "stop_actor tid acts = (if tid < length acts then acts[tid := stop (acts ! tid)] else acts)"

definition stop_all_locked :: "stream_state \<Rightarrow> stream_state" where
  "stop_all_locked s = s\<lparr>actors := fold stop_actor (map snd (threads s)) (actors s)\<rparr>"

definition stop_all :: "stream_state \<Rightarrow> stream_state" where
  "stop_all s = stop_all_locked s"

text \<open>The body of \<open>for ch in channels\<close> in \<open>start_streams\<close>.\<close>

definition start_channel ::
  "string \<Rightarrow> string \<Rightarrow> string \<Rightarrow> int \<Rightarrow> int \<Rightarrow> int \<Rightarrow> stream_state \<Rightarrow> stream_state" where
  "start_channel ip_addr usr pwd sub th ch s =
     (let u = make_rtsp_url ip_addr usr pwd ch sub;
          t = CaptureThread (''CH'' @ int_str ch) u (''CH'' @ int_str ch) th;
          tid = length (actors s)
      in s\<lparr>actors := actors s @ [start t],
           environ := (case ffmpeg_options True (ffmpeg_timeout_ms t) of
                         None \<Rightarrow> environ s
                       | Some opts \<Rightarrow> Some opts),
           threads := AList.update ch tid (threads s),
           getters := AList.update ch tid (getters s)\<rparr>)"

text \<open>
  \<open>start_streams\<close> returns the outcome of the call and the state it leaves: an exception
  of \<open>_coerce_channels\<close> is raised before anything is touched.
\<close>

definition start_streams ::
  "string \<Rightarrow> string \<Rightarrow> string \<Rightarrow> pyval \<Rightarrow> int \<Rightarrow> int \<Rightarrow> stream_state
     \<Rightarrow> (error + unit) \<times> stream_state" where
  "start_streams ip_addr usr pwd chans sub th s =
     (case coerce_channels chans of
        Inl e \<Rightarrow> (Inl e, s)
      | Inr chs \<Rightarrow>
         (let s1 = stop_all_locked s;
              s2 = s1\<lparr>threads := [], getters := []\<rparr>;
              s3 = s2\<lparr>config := \<lparr>cfg_ip = ip_addr, cfg_user = usr, cfg_password = pwd,
                                 cfg_channels = chs, cfg_subtype = sub,
                                 cfg_target_height = th\<rparr>\<rparr>
          in (Inr (), fold (start_channel ip_addr usr pwd sub th) chs s3)))"

text \<open>\<open>STATE.getters.get(ch)\<close>, and the call of the accessor it returns.\<close>

definition get_accessor :: "stream_state \<Rightarrow> int \<Rightarrow> nat option" where
  "get_accessor s ch = map_of (getters s) ch"

definition call_getter :: "stream_state \<Rightarrow> nat \<Rightarrow> img option" where
  "call_getter s tid = (if tid < length (actors s) then get_frame (actors s ! tid) else None)"

text \<open>The scheduler lets capture thread \<open>tid\<close> make one step.\<close>

definition actor_step :: "nat \<Rightarrow> world \<Rightarrow> stream_state \<Rightarrow> stream_state" where
  "actor_step tid w s =
     (if tid < length (actors s)
      then s\<lparr>actors := (actors s)[tid := snd (run_step w (actors s ! tid))]\<rparr>
      else s)"

section \<open>Stream encoder\<close>

text \<open>
  \<open>mjpeg_generator\<close> never returns: it is run on the list of what the successive
  iterations meet. A \<open>tick\<close> gives the frame the accessor returns, the formatted
  timestamp, and the time the iteration spends before reading the clock (\<open>d_get\<close>:
  the accessor and the timestamp overlay) and after it (\<open>d_enc\<close>: the rate overlay and
  the JPEG encoder). \<open>imencode\<close> is the encoder (None: it failed). The run lists what the
  generator does, each chunk with the time at which it is yielded; an exception ends it. The time for which the
  consumer keeps the generator suspended at a \<open>yield\<close> counts in \<open>d_get\<close> of the next
  iteration; \<open>time.sleep\<close> is taken to last exactly what it is asked.
\<close>

record tick =
  got :: "img option"
  ts :: string
  d_get :: real
  d_enc :: real

record gen_state =
  clock :: real
  last :: real
  ema :: real

datatype out = Yield real string | Sleep real | Raise error

definition white :: "nat \<times> nat \<times> nat" where
  "white = (255, 255, 255)"

definition chunk :: "string \<Rightarrow> string" where
  "chunk jpeg =
     ''--frame'' @ [CHR 0x0D, CHR 0x0A] @ ''Content-Type: image/jpeg''
       @ [CHR 0x0D, CHR 0x0A, CHR 0x0D, CHR 0x0A] @ jpeg @ [CHR 0x0D, CHR 0x0A]"

fun mjpeg_loop ::
  "(img \<Rightarrow> int \<Rightarrow> string option) \<Rightarrow> int \<Rightarrow> bool \<Rightarrow> bool \<Rightarrow> int \<Rightarrow> gen_state \<Rightarrow> tick list
     \<Rightarrow> out list" where
  "mjpeg_loop imencode fps show_stamp show_fps jpeg_quality st [] = []"
| "mjpeg_loop imencode fps show_stamp show_fps jpeg_quality st (tk # tks) =
     (case got tk of
        None \<Rightarrow>
          Sleep 0.03
            # mjpeg_loop imencode fps show_stamp show_fps jpeg_quality
                (st\<lparr>clock := clock st + d_get tk + 0.03\<rparr>) tks
      | Some f \<Rightarrow>
         (let h = int (fst (shape f)); w = int (snd (shape f));
              now = clock st + d_get tk;
              inst = 1 / max (1 / 1000000) (now - last st);
              ema' = (if ema st > 0 then (1 - 0.12) * ema st + 0.12 * inst else inst);
              t_out = now + d_enc tk
          in case (if show_stamp then cv2_putText f (Text (ts tk)) (10, h - 12) white
                   else Inr f) of
               Inl e \<Rightarrow> [Raise e]
             | Inr f1 \<Rightarrow>
                (case (if show_fps then cv2_putText f1 (FpsText ema') (w - 180, h - 12) white
                       else Inr f1) of
                   Inl e \<Rightarrow> [Raise e]
                 | Inr f2 \<Rightarrow>
                    (case cv2_imencode imencode f2 jpeg_quality of
                       Inl e \<Rightarrow> [Raise e]
                     | Inr None \<Rightarrow>
                         mjpeg_loop imencode fps show_stamp show_fps jpeg_quality
                           \<lparr>clock = t_out, last = now, ema = ema'\<rparr> tks
                     | Inr (Some jpeg) \<Rightarrow>
                         Yield t_out (chunk jpeg)
                           # (if fps = 0 then [Raise ZeroDivisionError]
                              else Sleep (max 0 (1 / real_of_int fps))
                                     # mjpeg_loop imencode fps show_stamp show_fps jpeg_quality
                                         \<lparr>clock = t_out + max 0 (1 / real_of_int fps),
                                          last = now, ema = ema'\<rparr> tks)))))"

definition mjpeg_generator ::
  "(img \<Rightarrow> int \<Rightarrow> string option) \<Rightarrow> int \<Rightarrow> bool \<Rightarrow> bool \<Rightarrow> int \<Rightarrow> real \<Rightarrow> tick list \<Rightarrow> out list" where
  "mjpeg_generator imencode fps show_stamp show_fps jpeg_quality t0 tks =
     mjpeg_loop imencode fps show_stamp show_fps jpeg_quality \<lparr>clock = t0, last = t0, ema = 0\<rparr> tks"

section \<open>Statements of the specification, for comparison\<close>

text \<open>The specification's cell width: \<open>round(cell_height * 16/9)\<close>.\<close>

definition spec_cell_width :: "int \<Rightarrow> int" where
  "spec_cell_width cell_h = round (real_of_int cell_h * 16 / 9)"

text \<open>
  The specification's pacing: after a chunk, sleep for the rest of the frame interval,
  \<open>max(0, 1/fps - elapsed)\<close>.
\<close>

definition spec_pace :: "int \<Rightarrow> real \<Rightarrow> real" where
  "spec_pace fps elapsed = max 0 (1 / real_of_int fps - elapsed)"

text \<open>Accessors with a fixed result, for concrete inputs.\<close>

definition no_frame :: getter where
  "no_frame = (\<lambda>_. None)"

definition const_getter :: "img \<Rightarrow> getter" where
  "const_getter f = (\<lambda>_. Some f)"

section \<open>Layouts\<close>

text \<open>
  The slice assignments of a row of frames starting at column \<open>x\<close>, and the slice
  assignment of the \<open>i\<close>-th cell of a grid; \<open>covering\<close> is the image of the last
  assignment of a list that covers a pixel.
\<close>

fun row_cells :: "nat \<Rightarrow> img list \<Rightarrow> ((nat \<times> nat \<times> nat \<times> nat) \<times> img) list" where
  "row_cells x [] = []"
| "row_cells x (f # fs) =
     ((0, fst (shape f), x, x + snd (shape f)), f) # row_cells (x + snd (shape f)) fs"

definition grid_cell :: "nat \<Rightarrow> nat \<Rightarrow> nat \<Rightarrow> nat \<Rightarrow> img \<Rightarrow> (nat \<times> nat \<times> nat \<times> nat) \<times> img" where
  "grid_cell cols cw ch i f =
     ((i div cols * ch, (i div cols + 1) * ch, i mod cols * cw, (i mod cols + 1) * cw),
      Resized f cw ch)"

fun covering :: "((nat \<times> nat \<times> nat \<times> nat) \<times> img) list \<Rightarrow> nat \<Rightarrow> nat \<Rightarrow> img option" where
  "covering [] y x = None"
| "covering (((y1, y2, x1, x2), f) # ps) y x =
     (case covering ps y x of
        Some g \<Rightarrow> Some g
      | None \<Rightarrow> if y1 \<le> y \<and> y < y2 \<and> x1 \<le> x \<and> x < x2 then Some f else None)"

section \<open>Capture actor: observations\<close>

text \<open>
  The condition \<open>not ok or frame is None\<close> of the loop body, the events that are calls of
  \<open>_open\<close>, the placeholder frame of a target height, and an actor in its loop whose
  handle, if it has one, is not opened.
\<close>

fun is_open_event :: "event \<Rightarrow> bool" where
  "is_open_event (Opened r) = True"
| "is_open_event e = False"

definition placeholder :: "string \<Rightarrow> nat \<Rightarrow> img" where
  "placeholder lbl h = PutText (Zeros h h) (Text (lbl @ '' (reconectando...)'')) (10, 30) (0, 0, 255)"

definition read_failed :: "world \<Rightarrow> capture_thread \<Rightarrow> bool" where
  "read_failed w t = (\<not> fst (cap_read w t) \<or> snd (cap_read w t) = None)"

definition offline :: "capture_thread \<Rightarrow> bool" where
  "offline t = (phase t = Looping \<and> \<not> stop_flag t \<and> (\<forall>c. cap t = Some c \<longrightarrow> \<not> is_opened c))"

text \<open>
  Concrete inputs: a network that is down, a network that delivers a frame, and an actor
  of channel 1 inside its loop.
\<close>

definition down :: "real \<Rightarrow> real \<Rightarrow> world" where
  "down t1 t2 = \<lparr>open_result = NotConnected, read_result = (False, None), now1 = t1, now2 = t2\<rparr>"

definition up :: "img \<Rightarrow> world" where
  "up im = \<lparr>open_result = Connected, read_result = (True, Some im), now1 = 0, now2 = 0\<rparr>"

definition looping :: "int \<Rightarrow> bool \<Rightarrow> real \<Rightarrow> capture_thread" where
  "looping th conn t_last =
     (CaptureThread ''CH1'' ''rtsp://dvr'' ''CH1'' th)
       \<lparr>cap := Some (VideoCapture conn), phase := Looping, last_try := t_last\<rparr>"


section \<open>Stream state: observations\<close>

text \<open>
  The actor \<open>start_streams\<close> creates and starts for a channel; the registry invariant
  (every accessor refers to a started, unstopped actor of its channel, and the thread
  registry refers to the same one); and a concrete state: channel 1 configured, its
  actor two steps into its run, inside its loop.
\<close>

definition new_actor :: "string \<Rightarrow> string \<Rightarrow> string \<Rightarrow> int \<Rightarrow> int \<Rightarrow> int \<Rightarrow> capture_thread" where
  "new_actor ip_addr usr pwd sub th ch =
     start (CaptureThread (''CH'' @ int_str ch) (make_rtsp_url ip_addr usr pwd ch sub)
              (''CH'' @ int_str ch) th)"

definition registry_ok :: "stream_state \<Rightarrow> bool" where
  "registry_ok s =
     (\<forall>c tid. map_of (getters s) c = Some tid \<longrightarrow>
        tid < length (actors s) \<and> map_of (threads s) c = Some tid
        \<and> label (actors s ! tid) = ''CH'' @ int_str c \<and> phase (actors s ! tid) = Started
        \<and> \<not> stop_flag (actors s ! tid))"

definition one_running :: stream_state where
  "one_running =
     actor_step 0 (down 100 101) (actor_step 0 (down 100 101)
       (snd (start_streams ''192.168.0.18'' ''admin'' ''secret'' (PyList [PyInt 1]) 0 360 StreamState)))"

section \<open>Stream encoder: observations\<close>

text \<open>
  The times at which chunks are yielded, the sleeps that directly follow a chunk, and
  lists of times in which each is at least \<open>d\<close> after the one before. Concrete inputs:
  an iteration that gets a frame, and an encoder that succeeds.
\<close>

fun yield_times :: "out list \<Rightarrow> real list" where
  "yield_times [] = []"
| "yield_times (Yield t c # os) = t # yield_times os"
| "yield_times (ev # os) = yield_times os"

fun sleeps_after_yield :: "out list \<Rightarrow> real list" where
  "sleeps_after_yield (Yield t c # Sleep d # os) = d # sleeps_after_yield os"
| "sleeps_after_yield (ev # os) = sleeps_after_yield os"
| "sleeps_after_yield [] = []"

fun spaced :: "real \<Rightarrow> real list \<Rightarrow> bool" where
  "spaced d (t # u # us) = (t + d \<le> u \<and> spaced d (u # us))"
| "spaced d us = True"

definition a_tick :: "real \<Rightarrow> real \<Rightarrow> tick" where
  "a_tick g e = \<lparr>got = Some (Decoded 360 640 0), ts = ''2026-01-01 00:00:00'', d_get = g, d_enc = e\<rparr>"

definition jpeg_ok :: "img \<Rightarrow> int \<Rightarrow> string option" where
  "jpeg_ok f q = Some ''JPEG''"


section \<open>Grid cell width\<close>

lemma floor_ninth: "\<lfloor>real_of_int a / 9\<rfloor> = a div 9"
  using floor_divide_of_int_eq [of a 9, where ?'a = real] by simp

lemma ceiling_ninth: "\<lceil>real_of_int a / 9\<rceil> = - ((- a) div 9)"
proof -
  have "\<lceil>real_of_int a / 9\<rceil> = - \<lfloor>real_of_int (- a) / 9\<rfloor>"
    by (simp add: ceiling_def)
  then show ?thesis by (simp only: floor_ninth)
qed

lemma cell_width_nonneg: "0 \<le> cell_h \<Longrightarrow> cell_width cell_h = cell_h * 16 div 9"
  unfolding cell_width_def py_int_of_float_def by (simp only: floor_ninth) simp

lemma cell_width_neg: "cell_h < 0 \<Longrightarrow> cell_width cell_h = - ((- cell_h) * 16 div 9)"
  unfolding cell_width_def py_int_of_float_def by (simp only: ceiling_ninth) simp

lemma round_ninths: "spec_cell_width cell_h = (cell_h * 32 + 9) div 18"
proof -
  have e: "real_of_int cell_h * 16 / 9 + 1 / 2 = real_of_int (cell_h * 32 + 9) / real_of_int 18"
    by simp
  have "round (real_of_int cell_h * 16 / 9) = \<lfloor>real_of_int cell_h * 16 / 9 + 1 / 2\<rfloor>"
    by (simp only: round_def)
  also have "\<dots> = \<lfloor>real_of_int (cell_h * 32 + 9) / real_of_int 18\<rfloor>"
    by (simp only: e)
  also have "\<dots> = (cell_h * 32 + 9) div 18"
    by (rule floor_divide_of_int_eq)
  finally show ?thesis
    by (simp only: spec_cell_width_def)
qed

lemma round_vs_trunc:
  "(k * 32 + 9) div 18 = k * 16 div 9 + (if 5 \<le> k * 16 mod 9 then 1 else 0)" for k :: int
proof -
  define q where "q = k * 16 div 9"
  define r where "r = k * 16 mod 9"
  have k: "k * 16 = 9 * q + r" and r: "0 \<le> r" "r < 9"
    unfolding q_def r_def by simp_all
  have "k * 32 + 9 = 18 * q + (2 * r + 9)" using k by simp
  then have "(k * 32 + 9) div 18 = q + (2 * r + 9) div 18"
    by (simp add: div_mult_self4)
  moreover have "(2 * r + 9) div 18 = (if 5 \<le> r then 1 else 0)"
    using r by (auto simp: div_pos_pos_trivial)
  ultimately show ?thesis unfolding q_def r_def by simp
qed

lemma round_vs_trunc_neg:
  "(- (k * 32) + 9) div 18 = - (k * 16 div 9) - (if 5 \<le> k * 16 mod 9 then 1 else 0)" for k :: int
proof -
  define q where "q = k * 16 div 9"
  define r where "r = k * 16 mod 9"
  have k: "k * 16 = 9 * q + r" and r: "0 \<le> r" "r < 9"
    unfolding q_def r_def by simp_all
  have "- (k * 32) + 9 = 18 * (- q) + (9 - 2 * r)" using k by simp
  then have "(- (k * 32) + 9) div 18 = - q + (9 - 2 * r) div 18"
    by (simp only: div_mult_self4)
  moreover have "(9 - 2 * r) div 18 = (if 5 \<le> r then - 1 else 0)"
  proof (cases "5 \<le> r")
    case True
    have "9 - 2 * r = 18 * (- 1) + (27 - 2 * r)" by simp
    then have "(9 - 2 * r) div 18 = - 1 + (27 - 2 * r) div 18"
      by (simp only: div_mult_self4)
    moreover have "(27 - 2 * r) div 18 = 0"
      using True r by (simp add: div_pos_pos_trivial)
    ultimately show ?thesis using True by simp
  next
    case False
    then have "(9 - 2 * r) div 18 = 0" using r by (simp add: div_pos_pos_trivial)
    then show ?thesis using False by simp
  qed
  ultimately show ?thesis unfolding q_def r_def by simp
qed

lemma bit_length_le: "n < 2 ^ k \<Longrightarrow> bit_length n \<le> k"
proof (induction k arbitrary: n)
  case 0
  then show ?case by (simp add: bit_length.simps)
next
  case (Suc k)
  show ?case
  proof (cases "n = 0")
    case True
    then show ?thesis by (simp add: bit_length.simps)
  next
    case False
    have "n div 2 < 2 ^ k" using Suc.prems by simp
    then have "bit_length (n div 2) \<le> k" by (rule Suc.IH)
    then show ?thesis using False by (subst bit_length.simps) simp
  qed
qed

lemma bit_length_9: "bit_length 9 = 4"
  by (simp add: bit_length.simps)

lemma floor_log2_ninth:
  assumes "a < 9 * 2 ^ 50"
  shows "floor_log2 a 9 \<le> 49"
proof -
  have "a < 2 ^ 54" using assms by simp
  then have bl: "bit_length a \<le> 54" by (rule bit_length_le)
  show ?thesis
  proof (cases "bit_length a = 54")
    case True
    have "scaled a 9 50 = (a, 9 * 2 ^ 50)" by (simp add: scaled_def)
    then show ?thesis
      unfolding floor_log2_def bit_length_9 True using assms by (simp add: Let_def)
  next
    case False
    then have "int (bit_length a) - int 4 \<le> 49" using bl by simp
    then show ?thesis
      unfolding floor_log2_def bit_length_9 by (simp add: Let_def split: prod.splits)
  qed
qed

lemma round_half_even_bounds:
  assumes "0 < d"
  shows "n div d \<le> round_half_even n d" and "2 * d * round_half_even n d \<le> 2 * n + d"
proof -
  define q r where "q = n div d" and "r = n mod d"
  have n: "n = d * q + r" unfolding q_def r_def by simp
  have c: "round_half_even n d = q \<and> 2 * r \<le> d \<or> round_half_even n d = q + 1 \<and> d \<le> 2 * r"
    unfolding round_half_even_def q_def r_def by (auto simp: Let_def)
  show "n div d \<le> round_half_even n d" using c unfolding q_def by auto
  show "2 * d * round_half_even n d \<le> 2 * n + d"
    using c unfolding n by (auto simp: algebra_simps)
qed

lemma round_pos_ninth:
  assumes "a < 9 * 2 ^ 50"
  shows "\<exists>m E. round_pos a 9 = Inr (m, - int E) \<and> 0 < E \<and> m div 2 ^ E = a div 9"
proof -
  define e where "e = max (floor_log2 a 9 - 52) (- 1074)"
  have e3: "e \<le> - 3" using floor_log2_ninth [OF assms] unfolding e_def by simp
  define E where "E = nat (- e)"
  have E: "3 \<le> E" "e = - int E" using e3 unfolding E_def by simp_all
  define m where "m = round_half_even (a * 2 ^ E) 9"
  have sc: "scaled a 9 e = (a * 2 ^ E, 9)" using e3 unfolding scaled_def E_def by simp
  have rp: "round_pos a 9 = Inr (m, - int E)"
    unfolding round_pos_def e_def [symmetric] using sc e3 E(2) by (simp add: Let_def m_def)
  define Q R where "Q = a div 9" and "R = a mod 9"
  have a: "a = 9 * Q + R" and R: "R < 9" unfolding Q_def R_def by simp_all
  have p8: "(8::nat) \<le> 2 ^ E"
  proof -
    have "(2::nat) ^ 3 \<le> 2 ^ E" using E(1) by (intro power_increasing) simp_all
    then show ?thesis by simp
  qed
  have lo: "a * 2 ^ E div 9 \<le> m" and hi: "2 * 9 * m \<le> 2 * (a * 2 ^ E) + 9"
    unfolding m_def by (rule round_half_even_bounds; simp)+
  have "Q * 2 ^ E * 9 \<le> a * 2 ^ E" unfolding a by (simp add: algebra_simps)
  then have "Q * 2 ^ E \<le> a * 2 ^ E div 9" by (simp add: less_eq_div_iff_mult_less_eq)
  then have lower: "2 ^ E * Q \<le> m" using lo by (simp add: mult.commute)
  have "18 * m \<le> 18 * (Q * 2 ^ E) + 2 * R * 2 ^ E + 9"
    using hi unfolding a by (simp add: algebra_simps)
  also have "\<dots> \<le> 18 * (Q * 2 ^ E) + 16 * 2 ^ E + 9"
    using R by simp
  also have "\<dots> < 18 * (Q * 2 ^ E) + 18 * 2 ^ E"
    using p8 by simp
  finally have "18 * m < 18 * (2 ^ E * Suc Q)" by (simp add: algebra_simps)
  then have upper: "m < 2 ^ E * Suc Q" by simp
  have "m div 2 ^ E = Q" using lower upper by (rule div_nat_eqI)
  then show ?thesis using rp E(1) unfolding Q_def by auto
qed

lemma py_cell_w_exact:
  assumes "\<bar>c\<bar> < 9 * 2 ^ 46"
  shows "py_cell_w c = Inr (sgn c * (\<bar>c\<bar> * 16 div 9))"
proof (cases "c = 0")
  case True
  then show ?thesis
    by (simp add: py_cell_w_def py_truediv_def round_rat_def py_int_of_double_def)
next
  case False
  define a where "a = nat (\<bar>c\<bar> * 16)"
  have a: "a < 9 * 2 ^ 50" "int a = \<bar>c\<bar> * 16" "\<bar>c * 16\<bar> = int a"
    using assms unfolding a_def by simp_all
  from round_pos_ninth [OF a(1)] obtain m E where
    rp: "round_pos a 9 = Inr (m, - int E)" and E: "0 < E" and d: "m div 2 ^ E = a div 9"
    by blast
  have q: "int (a div 9) = \<bar>c\<bar> * 16 div 9"
    using a(2) by (simp add: zdiv_int)
  have nz: "c * 16 \<noteq> 0" using False by simp
  have tr: "py_truediv (c * 16) 9 = Inr (sgn c * int m, - int E)"
    unfolding py_truediv_def round_rat_def using nz rp a(3) by (simp add: a_def sgn_mult)
  have "py_int_of_double (sgn c * int m, - int E) = sgn c * int (m div 2 ^ E)"
    using E False
    by (cases "m = 0")
       (simp_all add: py_int_of_double_def sgn_mult abs_mult sgn_if zdiv_int)
  then show ?thesis
    unfolding py_cell_w_def tr d q by simp
qed

lemmas float_eval = py_cell_w_def py_truediv_def round_rat_def round_pos_def floor_log2_def
  scaled_def round_half_even_def py_int_of_double_def bit_length.simps Let_def

text \<open>
  C4, as the code has it. For a cell height below \<open>9 * 2^46\<close> in absolute value the
  float division of the code loses nothing, and the cell width \<open>int(cell_h * 16/9)\<close>
  is the quotient truncated towards zero, not rounded to the nearest integer. The
  nearest integer is one further from zero whenever the remainder of
  \<open>|cell_h| * 16\<close> by 9 is at least 5, and the same otherwise.
\<close>

theorem cell_width_truncates:
  "(\<bar>cell_h\<bar> < 9 * 2 ^ 46 \<longrightarrow>
      py_cell_w cell_h = Inr (sgn cell_h * (\<bar>cell_h\<bar> * 16 div 9))
      \<and> py_cell_w cell_h = Inr (cell_width cell_h))
   \<and> spec_cell_width cell_h
       = sgn cell_h * (\<bar>cell_h\<bar> * 16 div 9)
         + sgn cell_h * (if 5 \<le> \<bar>cell_h\<bar> * 16 mod 9 then 1 else 0)"
proof -
  have cw: "cell_width cell_h = sgn cell_h * (\<bar>cell_h\<bar> * 16 div 9)"
  proof (cases "0 \<le> cell_h")
    case True
    have "cell_width cell_h = cell_h * 16 div 9" using True by (rule cell_width_nonneg)
    then show ?thesis using True by (cases "cell_h = 0") (simp_all add: sgn_if)
  next
    case False
    then have n: "cell_h < 0" by simp
    have "cell_width cell_h = - ((- cell_h) * 16 div 9)" using n by (rule cell_width_neg)
    then show ?thesis using n by (simp add: sgn_if)
  qed
  have sp: "spec_cell_width cell_h
       = sgn cell_h * (\<bar>cell_h\<bar> * 16 div 9)
         + sgn cell_h * (if 5 \<le> \<bar>cell_h\<bar> * 16 mod 9 then 1 else 0)"
  proof (cases "0 \<le> cell_h")
    case True
    have "spec_cell_width cell_h = (cell_h * 32 + 9) div 18" by (rule round_ninths)
    then show ?thesis
      unfolding round_vs_trunc using True by (cases "cell_h = 0") (simp_all add: sgn_if)
  next
    case False
    define k where "k = - cell_h"
    have k: "cell_h = - k" "0 < k" using False unfolding k_def by simp_all
    have "spec_cell_width cell_h = (- (k * 32) + 9) div 18"
      unfolding round_ninths k(1) by simp
    then show ?thesis
      unfolding round_vs_trunc_neg using k by (simp add: sgn_if)
  qed
  show ?thesis using py_cell_w_exact [of cell_h] cw sp by simp
qed

text \<open>
  C4 as stated fails at a cell height of 100: the code computes 177, the nearest integer
  to 177.78 is 178. The bound on the cell height is needed: at 1266637395197953 the float
  quotient is rounded up and the code computes 2251799813685250, one more than the
  truncated quotient.
\<close>

theorem cell_width_round_counterexample:
  "py_cell_w 100 = Inr 177 \<and> spec_cell_width 100 = 178
   \<and> py_cell_w 1266637395197953 = Inr 2251799813685250
   \<and> (1266637395197953 * 16 div 9 :: int) = 2251799813685249"
  by (simp add: float_eval round_ninths)

text \<open>Cell heights 100 and -100 (the two differ) and 360 (they agree).\<close>

theorem cell_width_truncates_witness:
  "\<bar>100 :: int\<bar> < 9 * 2 ^ 46 \<and> \<bar>- 100 :: int\<bar> < 9 * 2 ^ 46 \<and> \<bar>360 :: int\<bar> < 9 * 2 ^ 46
   \<and> py_cell_w 100 = Inr 177 \<and> spec_cell_width 100 = 178
   \<and> py_cell_w (- 100) = Inr (- 177) \<and> spec_cell_width (- 100) = - 178
   \<and> py_cell_w 360 = Inr 640 \<and> spec_cell_width 360 = 640 \<and> cell_width 360 = 640"
  using cell_width_truncates [of 100] cell_width_truncates [of "- 100"]
    cell_width_truncates [of 360]
  by (simp add: cell_width_nonneg)

section \<open>Compositor: slices and layouts\<close>

lemma py_slice_fit: "0 \<le> a \<Longrightarrow> a \<le> b \<Longrightarrow> b \<le> int n \<Longrightarrow> py_slice a b n = (nat a, nat b)"
  by (simp add: py_slice_def Let_def min_def max_def)

lemma set_slice_fit:
  assumes "0 \<le> y1" "y1 \<le> y2" "y2 \<le> int (fst (shape canvas))"
    and "0 \<le> x1" "x1 \<le> x2" "x2 \<le> int (snd (shape canvas))"
    and "shape f = (nat (y2 - y1), nat (x2 - x1))"
  shows "set_slice canvas y1 y2 x1 x2 f = Inr (Paste canvas (nat y1) (nat y2) (nat x1) (nat x2) f)"
proof -
  have ys: "py_slice y1 y2 (fst (shape canvas)) = (nat y1, nat y2)"
    using assms(1-3) by (rule py_slice_fit)
  have xs: "py_slice x1 x2 (snd (shape canvas)) = (nat x1, nat x2)"
    using assms(4-6) by (rule py_slice_fit)
  have "nat (y2 - y1) = nat y2 - nat y1" "nat (x2 - x1) = nat x2 - nat x1"
    using assms(1,2,4,5) by simp_all
  then show ?thesis
    unfolding set_slice_def ys xs using assms(7) by simp
qed

lemma row_paste_ok:
  assumes "\<forall>f\<in>set fs. fst (shape f) \<le> fst (shape canvas)"
    and "x + sum_list (map (\<lambda>f. snd (shape f)) fs) \<le> snd (shape canvas)"
  shows "\<exists>c. row_paste canvas (int x) fs = Inr c \<and> shape c = shape canvas
             \<and> pastes c = pastes canvas @ row_cells x fs"
  using assms
proof (induction fs arbitrary: canvas x)
  case Nil
  then show ?case by simp
next
  case (Cons f fs)
  let ?hh = "fst (shape f)" and ?ww = "snd (shape f)"
  let ?c1 = "Paste canvas 0 ?hh x (x + ?ww) f"
  have fit: "set_slice canvas 0 (int ?hh) (int x) (int x + int ?ww) f = Inr ?c1"
    using set_slice_fit [of 0 "int ?hh" canvas "int x" "int x + int ?ww" f] Cons.prems
    by (simp add: nat_add_distrib)
  have "\<exists>c. row_paste ?c1 (int (x + ?ww)) fs = Inr c \<and> shape c = shape ?c1
             \<and> pastes c = pastes ?c1 @ row_cells (x + ?ww) fs"
    using Cons.prems by (intro Cons.IH) (simp_all add: add.assoc)
  then show ?case
    using fit by (simp add: Let_def)
qed

lemma row_cells_length: "length (row_cells x fs) = length fs"
  by (induction fs arbitrary: x) simp_all

lemma row_cells_nth:
  "i < length fs \<Longrightarrow>
     row_cells x fs ! i =
       ((0, fst (shape (fs ! i)), x + sum_list (map (\<lambda>f. snd (shape f)) (take i fs)),
         x + sum_list (map (\<lambda>f. snd (shape f)) (take (Suc i) fs))), fs ! i)"
proof (induction fs arbitrary: x i)
  case Nil
  then show ?case by simp
next
  case (Cons f fs)
  show ?case
  proof (cases i)
    case 0
    then show ?thesis by simp
  next
    case (Suc j)
    then have "j < length fs" using Cons.prems by simp
    from Cons.IH [OF this, of "x + snd (shape f)"] show ?thesis
      using Suc by (simp add: add.assoc)
  qed
qed

lemma not_none_filter: "not_none rs = map the (filter (\<lambda>r. r \<noteq> None) rs)"
  by (induction rs rule: not_none.induct) simp_all

lemma py_max_Max: "py_max hs = Inr (Max (set hs))" if "hs \<noteq> []"
proof (cases hs)
  case Nil
  then show ?thesis using that by simp
next
  case (Cons a list)
  have "Max (set (a # list)) = fold max list a" by (rule Max.set_eq_fold)
  then show ?thesis using Cons by simp
qed

lemma covering_snoc:
  "covering (ps @ [((y1, y2, x1, x2), f)]) y x =
     (if y1 \<le> y \<and> y < y2 \<and> x1 \<le> x \<and> x < x2 then Some f else covering ps y x)"
  by (induction ps y x rule: covering.induct) (auto split: option.splits)

lemma pixel_src_covering: "pixel_src c y x = covering (pastes c) y x"
  by (induction c y x rule: pixel_src.induct) (simp_all add: covering_snoc)

lemma fill_blanks_ok:
  "fill_blanks (int h) (int w) rs =
     Inr (map (\<lambda>r. case r of Some f \<Rightarrow> f | None \<Rightarrow> Zeros h w) rs)"
  by (induction rs rule: not_none.induct) (simp_all add: np_zeros_def)

lemma grid_paste_step:
  assumes "0 < cols" "0 < cw" "0 < ch"
    and "fst (shape f) \<noteq> 0" "snd (shape f) \<noteq> 0"
    and "(i div cols + 1) * ch \<le> fst (shape canvas)" "cols * cw \<le> snd (shape canvas)"
  shows "case grid_cell cols cw ch i f of ((y1, y2, x1, x2), fr) \<Rightarrow>
           cv2_resize f (int cw) (int ch) = Inr fr \<and>
           set_slice canvas (int i div int cols * int ch) ((int i div int cols + 1) * int ch)
             (int i mod int cols * int cw) ((int i mod int cols + 1) * int cw) fr
           = Inr (Paste canvas y1 y2 x1 x2 fr)"
proof -
  let ?r = "i div cols" and ?c = "i mod cols"
  have rz: "cv2_resize f (int cw) (int ch) = Inr (Resized f cw ch)"
    using assms(2-5) by (simp add: cv2_resize_def)
  have c: "?c < cols" using assms(1) by simp
  then have "(?c + 1) * cw \<le> cols * cw" by (intro mult_le_mono1) simp
  then have xfit: "(?c + 1) * cw \<le> snd (shape canvas)" using assms(7) by simp
  have d: "int i div int cols = int ?r" "int i mod int cols = int ?c"
    by (simp_all add: zdiv_int zmod_int)
  have e: "int ?r * int ch = int (?r * ch)" "(int ?r + 1) * int ch = int ((?r + 1) * ch)"
    "int ?c * int cw = int (?c * cw)" "(int ?c + 1) * int cw = int ((?c + 1) * cw)"
    by (simp_all add: algebra_simps)
  have "set_slice canvas (int (?r * ch)) (int ((?r + 1) * ch)) (int (?c * cw)) (int ((?c + 1) * cw))
          (Resized f cw ch)
        = Inr (Paste canvas (nat (int (?r * ch))) (nat (int ((?r + 1) * ch)))
                 (nat (int (?c * cw))) (nat (int ((?c + 1) * cw))) (Resized f cw ch))"
  proof (rule set_slice_fit)
    show "int ((?r + 1) * ch) \<le> int (fst (shape canvas))" using assms(6) by (simp only: of_nat_le_iff)
    show "int ((?c + 1) * cw) \<le> int (snd (shape canvas))" using xfit by (simp only: of_nat_le_iff)
    show "shape (Resized f cw ch) =
           (nat (int ((?r + 1) * ch) - int (?r * ch)), nat (int ((?c + 1) * cw) - int (?c * cw)))"
      by (simp add: algebra_simps)
  qed simp_all
  then have "set_slice canvas (int ?r * int ch) ((int ?r + 1) * int ch)
               (int ?c * int cw) ((int ?c + 1) * int cw) (Resized f cw ch)
             = Inr (Paste canvas (?r * ch) ((?r + 1) * ch) (?c * cw) ((?c + 1) * cw) (Resized f cw ch))"
    by (simp only: e nat_int)
  then show ?thesis
    unfolding grid_cell_def d using rz by simp
qed


lemma grid_paste_ok:
  assumes "0 < cols" "0 < cw" "0 < ch"
    and "\<forall>f\<in>set fs. fst (shape f) \<noteq> 0 \<and> snd (shape f) \<noteq> 0"
    and "\<forall>i<m + length fs. (i div cols + 1) * ch \<le> fst (shape canvas)"
    and "cols * cw \<le> snd (shape canvas)"
  shows "\<exists>c. grid_paste (int cols) (int cw) (int ch) canvas (enumerate m fs) = Inr c
             \<and> shape c = shape canvas
             \<and> pastes c = pastes canvas @ map (\<lambda>(i, f). grid_cell cols cw ch i f) (enumerate m fs)"
  using assms(4-6)
proof (induction fs arbitrary: canvas m)
  case Nil
  then show ?case by simp
next
  case (Cons f fs)
  obtain y1 y2 x1 x2 fr where g: "grid_cell cols cw ch m f = ((y1, y2, x1, x2), fr)"
    by (metis prod_cases4 surj_pair)
  have "(m div cols + 1) * ch \<le> fst (shape canvas)" using Cons.prems(2) by simp
  then have st: "cv2_resize f (int cw) (int ch) = Inr fr"
    "set_slice canvas (int m div int cols * int ch) ((int m div int cols + 1) * int ch)
             (int m mod int cols * int cw) ((int m mod int cols + 1) * int cw) fr
           = Inr (Paste canvas y1 y2 x1 x2 fr)"
    using grid_paste_step [OF assms(1-3), of f m canvas] Cons.prems(1,3) g by simp_all
  let ?c1 = "Paste canvas y1 y2 x1 x2 fr"
  have "\<exists>c. grid_paste (int cols) (int cw) (int ch) ?c1 (enumerate (Suc m) fs) = Inr c
             \<and> shape c = shape ?c1
             \<and> pastes c = pastes ?c1 @ map (\<lambda>(i, f). grid_cell cols cw ch i f) (enumerate (Suc m) fs)"
    using Cons.prems by (intro Cons.IH) simp_all
  then show ?case
    using st g assms(1) by (simp add: Let_def)
qed

lemma in_cell_iff:
  "0 < ch \<Longrightarrow> (r * ch \<le> y \<and> y < (r + 1) * ch) \<longleftrightarrow> y div ch = r" for ch r y :: nat
proof
  assume "0 < ch" and "r * ch \<le> y \<and> y < (r + 1) * ch"
  then show "y div ch = r"
    by (intro div_nat_eqI) (simp_all add: mult.commute)
next
  assume c: "0 < ch" and "y div ch = r"
  then have r: "r = y div ch" by simp
  have "y div ch * ch \<le> y" by simp
  moreover have "y < (y div ch + 1) * ch"
    using c by (metis Suc_eq_plus1 dividend_less_div_times mult.commute mult_Suc_right add.commute)
  ultimately show "r * ch \<le> y \<and> y < (r + 1) * ch" unfolding r by simp
qed

lemma cell_index_iff:
  fixes r c n cols :: nat
  assumes "0 < cols" "c < cols"
  shows "(r = n div cols \<and> c = n mod cols) \<longleftrightarrow> r * cols + c = n"
  using assms by (auto simp: div_mult_self3)

lemma covering_grid:
  assumes "0 < cols" "0 < cw" "0 < ch" "n \<le> length fs"
  shows "covering (map (\<lambda>i. grid_cell cols cw ch i (fs ! i)) [0..<n]) y x =
           (if x < cols * cw \<and> y div ch * cols + x div cw < n
            then Some (Resized (fs ! (y div ch * cols + x div cw)) cw ch) else None)"
  using assms(4)
proof (induction n)
  case 0
  then show ?case by simp
next
  case (Suc n)
  let ?k = "y div ch * cols + x div cw"
  have ih: "covering (map (\<lambda>i. grid_cell cols cw ch i (fs ! i)) [0..<n]) y x =
           (if x < cols * cw \<and> ?k < n then Some (Resized (fs ! ?k) cw ch) else None)"
    using Suc by simp
  have inside: "(n div cols * ch \<le> y \<and> y < (n div cols + 1) * ch
                  \<and> n mod cols * cw \<le> x \<and> x < (n mod cols + 1) * cw)
                \<longleftrightarrow> (x < cols * cw \<and> ?k = n)"
  proof -
    have a: "(n div cols * ch \<le> y \<and> y < (n div cols + 1) * ch) \<longleftrightarrow> y div ch = n div cols"
      using assms(3) by (rule in_cell_iff)
    have b: "(n mod cols * cw \<le> x \<and> x < (n mod cols + 1) * cw) \<longleftrightarrow> x div cw = n mod cols"
      using assms(2) by (rule in_cell_iff)
    have lt: "x < cols * cw \<longleftrightarrow> x div cw < cols"
      using assms(2) by (simp add: div_less_iff_less_mult)
    have "x div cw = n mod cols \<Longrightarrow> x div cw < cols" using assms(1) by simp
    moreover have "x div cw < cols \<Longrightarrow>
        (y div ch = n div cols \<and> x div cw = n mod cols) \<longleftrightarrow> ?k = n"
      using cell_index_iff [OF assms(1), of "x div cw" "y div ch" n] by auto
    ultimately show ?thesis using a b lt by blast
  qed
  have "covering (map (\<lambda>i. grid_cell cols cw ch i (fs ! i)) [0..<Suc n]) y x =
        (if x < cols * cw \<and> ?k = n then Some (Resized (fs ! n) cw ch)
         else covering (map (\<lambda>i. grid_cell cols cw ch i (fs ! i)) [0..<n]) y x)"
    using inside by (simp add: grid_cell_def covering_snoc)
  then show ?case
    unfolding ih by (auto simp: less_Suc_eq)
qed


lemma np_zeros_nat: "np_zeros (int h) (int w) = Inr (Zeros h w)"
  by (simp add: np_zeros_def)

lemma cell_width_nat: "cell_width (int h) = int (h * 16 div 9)"
  using cell_width_nonneg [of "int h"] by (simp add: zdiv_int)

lemma rows_cover:
  fixes i n cols :: nat
  assumes "0 < cols" "i < n"
  shows "i div cols + 1 \<le> nat \<lceil>real n / real cols\<rceil>"
proof -
  have "real (i div cols) \<le> real i / real cols" by (rule of_nat_div_le_of_nat)
  also have "\<dots> < real n / real cols"
    using assms by (simp add: divide_strict_right_mono)
  also have "\<dots> \<le> of_int \<lceil>real n / real cols\<rceil>" by (rule le_of_int_ceiling)
  finally have "real_of_int (int (i div cols)) < of_int \<lceil>real n / real cols\<rceil>" by simp
  then have "int (i div cols) < \<lceil>real n / real cols\<rceil>" by (simp only: of_int_less_iff)
  then show ?thesis by linarith
qed

lemma map_enumerate_nth:
  "map (\<lambda>(i, f). g i f) (enumerate 0 xs) = map (\<lambda>i. g i (xs ! i)) [0..<length xs]"
  by (rule nth_equalityI) (simp_all add: enumerate_eq_zip)

lemma grid_canvas:
  fixes cols cell_h :: nat
  assumes "gs \<noteq> []" "0 < cols" "0 < cell_h"
    and "\<forall>g\<in>set gs. \<forall>f. g () = Some f \<longrightarrow> fst (shape f) \<noteq> 0 \<and> snd (shape f) \<noteq> 0"
    and "cw = cell_h * 16 div 9"
    and "cells = map (\<lambda>g. case g () of Some f \<Rightarrow> f | None \<Rightarrow> Zeros cell_h cw) gs"
  shows "\<exists>canvas. mosaic_getter_grid gs (int cols) (int cell_h) () = Inr (Some canvas)
           \<and> shape canvas = (nat \<lceil>real (length gs) / real cols\<rceil> * cell_h, cols * cw)
           \<and> pastes canvas = map (\<lambda>i. grid_cell cols cw cell_h i (cells ! i)) [0..<length gs]"
proof -
  let ?n = "length gs"
  let ?rows = "\<lceil>real ?n / real cols\<rceil>"
  have cwpos: "0 < cw" using assms(3,5) by (simp add: div_greater_zero_iff)
  have w: "cell_width (int cell_h) = int cw" using assms(5) by (simp only: cell_width_nat)
  have fb: "fill_blanks (int cell_h) (int cw) (map (\<lambda>g. g ()) gs) = Inr cells"
    unfolding assms(6) fill_blanks_ok by (simp add: comp_def)
  have ne: "cells \<noteq> []" and len: "length cells = ?n" using assms(1,6) by simp_all
  have cd: "ceil_div (length cells) (int cols) = Inr ?rows"
    using assms(2) len by (simp add: ceil_div_def)
  have "0 \<le> real ?n / real cols" by simp
  then have rows0: "0 \<le> ?rows" by (simp only: zero_le_ceiling)
  obtain R :: nat where R: "?rows = int R"
    using rows0 by (rule nonneg_int_cases)
  have zz: "np_zeros (int (R * cell_h)) (int (cols * cw)) = Inr (Zeros (R * cell_h) (cols * cw))"
    by (rule np_zeros_nat)
  have z: "np_zeros (?rows * int cell_h) (int cols * int cw)
             = Inr (Zeros (nat ?rows * cell_h) (cols * cw))"
    unfolding R using zz by (simp only: of_nat_mult nat_int)
  let ?cv = "Zeros (nat ?rows * cell_h) (cols * cw)"
  have nonempty: "\<forall>f\<in>set cells. fst (shape f) \<noteq> 0 \<and> snd (shape f) \<noteq> 0"
    using assms(3,4) cwpos unfolding assms(6) by (auto split: option.splits)
  have fit: "\<forall>i<0 + length cells. (i div cols + 1) * cell_h \<le> fst (shape ?cv)"
  proof (intro allI impI)
    fix i assume "i < 0 + length cells"
    then have "i < ?n" using len by simp
    then have "i div cols + 1 \<le> nat ?rows" by (rule rows_cover [OF assms(2)])
    then have "(i div cols + 1) * cell_h \<le> nat ?rows * cell_h" by (rule mult_le_mono1)
    then show "(i div cols + 1) * cell_h \<le> fst (shape ?cv)" by simp
  qed
  have "cols * cw \<le> snd (shape ?cv)" by simp
  from grid_paste_ok [OF assms(2) cwpos assms(3) nonempty fit this]
  obtain c where c: "grid_paste (int cols) (int cw) (int cell_h) ?cv (enumerate 0 cells) = Inr c"
    "shape c = shape ?cv"
    "pastes c = pastes ?cv @ map (\<lambda>(i, f). grid_cell cols cw cell_h i f) (enumerate 0 cells)"
    by blast
  have res: "mosaic_getter_grid gs (int cols) (int cell_h) () = Inr (Some c)"
    unfolding mosaic_getter_grid_def w using fb ne cd z c(1) by (simp add: Let_def)
  have "pastes c = map (\<lambda>i. grid_cell cols cw cell_h i (cells ! i)) [0..<?n]"
    using c(3) len by (simp add: map_enumerate_nth)
  then show ?thesis using res c(2) by simp
qed


lemma fill_blanks_length: "fill_blanks h w rs = Inr fs \<Longrightarrow> length fs = length rs"
  by (induction rs arbitrary: fs rule: not_none.induct) (auto split: sum.splits)

lemma grid_not_none: "gs \<noteq> [] \<Longrightarrow> mosaic_getter_grid gs cols cell_h () \<noteq> Inr None"
  unfolding mosaic_getter_grid_def Let_def
  by (auto split: sum.splits dest!: fill_blanks_length)

lemma row_all_none: "\<forall>g\<in>set gs. g () = None \<Longrightarrow> not_none (map (\<lambda>g. g ()) gs) = []"
  by (induction gs) simp_all

lemma ceil_div_int:
  "ceil_div n cols = (if cols = 0 then Inl ZeroDivisionError else Inr (- ((- int n) div cols)))"
proof -
  have "\<lceil>real_of_int (int n) / real_of_int cols\<rceil> = - ((- int n) div cols)"
    by (rule ceiling_divide_eq_div)
  then show ?thesis unfolding ceil_div_def by simp
qed

lemma cell_width_360: "cell_width 360 = 640"
  by (simp add: cell_width_nonneg)

lemma ceiling_five_halves: "\<lceil>5 / 2 :: real\<rceil> = 3"
  by (simp add: ceiling_eq_iff)


section \<open>Row compositor\<close>

text \<open>
  C5. When at least one accessor returns a frame, the row compositor returns a canvas as
  high as the highest available frame and as wide as the sum of their widths. The frames
  that are available, in list order (accessors that returned None are left out), are
  written one after the other from the left: frame \<open>i\<close> at rows 0 to its own height, at
  the columns that start at the sum of the widths of the frames before it, at its own
  size.
\<close>

theorem row_composite:
  assumes "\<exists>g\<in>set gs. g () \<noteq> None"
    and "frames = map the (filter (\<lambda>r. r \<noteq> None) (map (\<lambda>g. g ()) gs))"
  shows "\<exists>canvas. mosaic_getter_row gs () = Inr (Some canvas)
           \<and> fst (shape canvas) = Max (set (map (\<lambda>f. fst (shape f)) frames))
           \<and> snd (shape canvas) = sum_list (map (\<lambda>f. snd (shape f)) frames)
           \<and> length (pastes canvas) = length frames
           \<and> (\<forall>i<length frames. pastes canvas ! i =
                 ((0, fst (shape (frames ! i)),
                   sum_list (map (\<lambda>f. snd (shape f)) (take i frames)),
                   sum_list (map (\<lambda>f. snd (shape f)) (take (Suc i) frames))), frames ! i))"
proof -
  have fr: "not_none (map (\<lambda>g. g ()) gs) = frames"
    using assms(2) by (simp only: not_none_filter)
  have ne: "frames \<noteq> []"
    using assms by (auto simp: filter_empty_conv)
  let ?H = "Max (set (map (\<lambda>f. fst (shape f)) frames))"
  let ?W = "sum_list (map (\<lambda>f. snd (shape f)) frames)"
  have mx: "py_max (map (\<lambda>f. fst (shape f)) frames) = Inr ?H"
    using ne by (intro py_max_Max) simp
  have z: "np_zeros (int ?H) (int ?W) = Inr (Zeros ?H ?W)"
    by (simp add: np_zeros_def)
  have "\<forall>f\<in>set frames. fst (shape f) \<le> fst (shape (Zeros ?H ?W))"
    by simp
  moreover have "0 + ?W \<le> snd (shape (Zeros ?H ?W))" by simp
  ultimately obtain c where c: "row_paste (Zeros ?H ?W) (int 0) frames = Inr c"
    "shape c = shape (Zeros ?H ?W)" "pastes c = pastes (Zeros ?H ?W) @ row_cells 0 frames"
    using row_paste_ok [of frames "Zeros ?H ?W" 0] by blast
  have res: "mosaic_getter_row gs () = Inr (Some c)"
    unfolding mosaic_getter_row_def fr using ne mx z c(1) by (simp add: Let_def)
  have "\<forall>i<length frames. pastes c ! i =
                 ((0, fst (shape (frames ! i)),
                   sum_list (map (\<lambda>f. snd (shape f)) (take i frames)),
                   sum_list (map (\<lambda>f. snd (shape f)) (take (Suc i) frames))), frames ! i)"
    using c(3) row_cells_nth [of _ frames 0] by simp
  then show ?thesis
    using res c(2) c(3) by (simp add: row_cells_length)
qed

text \<open>
  Frames of 200 by 100 and 300 by 150 around an accessor that returns None: a canvas of
  height 300 and width 250.
\<close>

theorem row_composite_witness:
  "(\<exists>g\<in>set [const_getter (Decoded 200 100 0), no_frame, const_getter (Decoded 300 150 1)].
      g () \<noteq> None)
   \<and> (\<exists>canvas.
        mosaic_getter_row [const_getter (Decoded 200 100 0), no_frame,
                           const_getter (Decoded 300 150 1)] () = Inr (Some canvas)
        \<and> shape canvas = (300, 250)
        \<and> pastes canvas = [((0, 200, 0, 100), Decoded 200 100 0),
                            ((0, 300, 100, 250), Decoded 300 150 1)])"
proof -
  let ?G = "[const_getter (Decoded 200 100 0), no_frame, const_getter (Decoded 300 150 1)]"
  let ?F = "[Decoded 200 100 0, Decoded 300 150 1]"
  have h: "\<exists>g\<in>set ?G. g () \<noteq> None" by (simp add: const_getter_def)
  have f: "?F = map the (filter (\<lambda>r. r \<noteq> None) (map (\<lambda>g. g ()) ?G))"
    by (simp add: const_getter_def no_frame_def)
  from row_composite [OF h f] obtain canvas where c:
    "mosaic_getter_row ?G () = Inr (Some canvas)"
    "fst (shape canvas) = Max (set (map (\<lambda>f. fst (shape f)) ?F))"
    "snd (shape canvas) = sum_list (map (\<lambda>f. snd (shape f)) ?F)"
    "length (pastes canvas) = length ?F"
    "\<forall>i<length ?F. pastes canvas ! i =
                 ((0, fst (shape (?F ! i)),
                   sum_list (map (\<lambda>f. snd (shape f)) (take i ?F)),
                   sum_list (map (\<lambda>f. snd (shape f)) (take (Suc i) ?F))), ?F ! i)"
    by blast
  have s: "shape canvas = (300, 250)"
    using c(2,3) by (simp add: prod_eq_iff)
  have p0: "pastes canvas ! 0 = ((0, 200, 0, 100), Decoded 200 100 0)"
    using c(5) [rule_format, of 0] by simp
  have p1: "pastes canvas ! 1 = ((0, 300, 100, 250), Decoded 300 150 1)"
    using c(5) [rule_format, of 1] by simp
  have "length (pastes canvas) = 2" using c(4) by simp
  then obtain a b where "pastes canvas = [a, b]"
    by (auto simp: numeral_2_eq_2 length_Suc_conv)
  then have "pastes canvas = [((0, 200, 0, 100), Decoded 200 100 0),
                            ((0, 300, 100, 250), Decoded 300 150 1)]"
    using p0 p1 by simp
  then show ?thesis using h c(1) s by blast
qed

section \<open>Grid compositor\<close>

text \<open>
  C3, as the code has it. For a list of accessors that is not empty, at least one column,
  a cell height of at least one and available frames that are not empty images, the grid
  compositor returns a canvas of \<open>ceil(n / cols) * cell_h\<close> rows and \<open>cols * cell_w\<close>
  columns. It makes one slice assignment for each accessor, in list order: number \<open>i\<close>
  writes rows \<open>(i div cols) * cell_h\<close> up to \<open>(i div cols + 1) * cell_h\<close> and columns
  \<open>(i mod cols) * cell_w\<close> up to \<open>(i mod cols + 1) * cell_w\<close> with the frame of
  accessor \<open>i\<close> resized to \<open>cell_h\<close> by \<open>cell_w\<close>, where an accessor that returned None
  counts as a blank image of that size. So each pixel of the canvas shows the cell it
  lies in, and the pixels of cells past the last accessor were never written.
\<close>

theorem grid_composite:
  fixes cols cell_h :: nat
  assumes "gs \<noteq> []" "1 \<le> cols" "1 \<le> cell_h"
    and "\<forall>g\<in>set gs. \<forall>f. g () = Some f \<longrightarrow> fst (shape f) \<noteq> 0 \<and> snd (shape f) \<noteq> 0"
    and "cell_w = nat (cell_width (int cell_h))"
    and "cells = map (\<lambda>g. case g () of Some f \<Rightarrow> f | None \<Rightarrow> Zeros cell_h cell_w) gs"
  shows "\<exists>canvas. mosaic_getter_grid gs (int cols) (int cell_h) () = Inr (Some canvas)
           \<and> shape canvas = (nat \<lceil>real (length gs) / real cols\<rceil> * cell_h, cols * cell_w)
           \<and> length (pastes canvas) = length gs
           \<and> (\<forall>i<length gs.
                 pastes canvas ! i =
                   ((i div cols * cell_h, (i div cols + 1) * cell_h,
                     i mod cols * cell_w, (i mod cols + 1) * cell_w),
                    Resized (cells ! i) cell_w cell_h)
                 \<and> shape (Resized (cells ! i) cell_w cell_h) = (cell_h, cell_w)
                 \<and> ((gs ! i) () = None \<longrightarrow> cells ! i = Zeros cell_h cell_w))
           \<and> (\<forall>y x. pixel_src canvas y x =
                 (if x < cols * cell_w \<and> y div cell_h * cols + x div cell_w < length gs
                  then Some (Resized (cells ! (y div cell_h * cols + x div cell_w)) cell_w cell_h)
                  else None))"
proof -
  have cw: "cell_w = cell_h * 16 div 9"
    using assms(5) by (simp only: cell_width_nat nat_int)
  have pos: "0 < cols" "0 < cell_h" "0 < cell_w"
    using assms(2,3) cw by (simp_all add: div_greater_zero_iff)
  from grid_canvas [OF assms(1) pos(1,2) assms(4) cw assms(6)]
  obtain canvas where c: "mosaic_getter_grid gs (int cols) (int cell_h) () = Inr (Some canvas)"
    "shape canvas = (nat \<lceil>real (length gs) / real cols\<rceil> * cell_h, cols * cell_w)"
    "pastes canvas = map (\<lambda>i. grid_cell cols cell_w cell_h i (cells ! i)) [0..<length gs]"
    by blast
  have len: "length cells = length gs" using assms(6) by simp
  have px: "\<forall>y x. pixel_src canvas y x =
                 (if x < cols * cell_w \<and> y div cell_h * cols + x div cell_w < length gs
                  then Some (Resized (cells ! (y div cell_h * cols + x div cell_w)) cell_w cell_h)
                  else None)"
    unfolding pixel_src_covering c(3)
    using covering_grid [OF pos(1) pos(3) pos(2), of "length gs" cells] len by simp
  have cells: "\<forall>i<length gs.
                 pastes canvas ! i =
                   ((i div cols * cell_h, (i div cols + 1) * cell_h,
                     i mod cols * cell_w, (i mod cols + 1) * cell_w),
                    Resized (cells ! i) cell_w cell_h)
                 \<and> shape (Resized (cells ! i) cell_w cell_h) = (cell_h, cell_w)
                 \<and> ((gs ! i) () = None \<longrightarrow> cells ! i = Zeros cell_h cell_w)"
    unfolding c(3) assms(6) by (simp add: grid_cell_def)
  have "length (pastes canvas) = length gs" unfolding c(3) by simp
  then show ?thesis using c(1,2) px cells by blast
qed


text \<open>
  C3 as stated fails outside these bounds: on the empty list the compositor returns None,
  not a canvas; with a cell height of zero the resize fails; with a negative one the
  blank cell cannot be allocated; and an available frame that is an empty image cannot
  be resized.
\<close>

theorem grid_empty_list_counterexample:
  "mosaic_getter_grid [] 2 360 () = Inr None
   \<and> mosaic_getter_grid [const_getter (Decoded 10 10 0)] 2 0 () = Inl CvError
   \<and> mosaic_getter_grid [no_frame] 2 (- 1) () = Inl ValueError
   \<and> mosaic_getter_grid [const_getter (Zeros 0 0)] 2 9 () = Inl CvError"
  by (simp add: mosaic_getter_grid_def no_frame_def const_getter_def cell_width_nonneg
      cell_width_neg np_zeros_def ceil_div_int cv2_resize_def)



text \<open>
  Five accessors in two columns with cells of 9 by 16: a canvas of 27 by 32, the second
  accessor (None) as a blank cell, the fifth at row 2, column 0, and the sixth cell
  never written.
\<close>

theorem grid_composite_witness:
  "[const_getter (Decoded 10 10 0), no_frame, const_getter (Decoded 20 30 2),
    const_getter (Decoded 10 10 3), const_getter (Decoded 10 10 4)] \<noteq> []
   \<and> (1::nat) \<le> 2 \<and> (1::nat) \<le> 9
   \<and> (\<exists>canvas.
        mosaic_getter_grid
          [const_getter (Decoded 10 10 0), no_frame, const_getter (Decoded 20 30 2),
           const_getter (Decoded 10 10 3), const_getter (Decoded 10 10 4)] 2 9 ()
          = Inr (Some canvas)
        \<and> shape canvas = (3 * 9, 2 * 16)
        \<and> pastes canvas ! 1 = ((0, 9, 16, 32), Resized (Zeros 9 16) 16 9)
        \<and> pastes canvas ! 4 = ((18, 27, 0, 16), Resized (Decoded 10 10 4) 16 9)
        \<and> pixel_src canvas 20 5 = Some (Resized (Decoded 10 10 4) 16 9)
        \<and> pixel_src canvas 20 20 = None)"
proof -
  let ?G = "[const_getter (Decoded 10 10 0), no_frame, const_getter (Decoded 20 30 2),
    const_getter (Decoded 10 10 3), const_getter (Decoded 10 10 4)]"
  let ?cells = "[Decoded 10 10 0, Zeros 9 16, Decoded 20 30 2, Decoded 10 10 3, Decoded 10 10 4]"
  have w: "(16::nat) = nat (cell_width (int 9))"
    by (simp add: cell_width_nonneg)
  have cells: "?cells = map (\<lambda>g. case g () of Some f \<Rightarrow> f | None \<Rightarrow> Zeros 9 16) ?G"
    by (simp add: const_getter_def no_frame_def)
  have ne: "\<forall>g\<in>set ?G. \<forall>f. g () = Some f \<longrightarrow> fst (shape f) \<noteq> 0 \<and> snd (shape f) \<noteq> 0"
    by (auto simp: const_getter_def no_frame_def)
  from grid_composite [of ?G 2 9 16 ?cells, OF _ _ _ ne w cells]
  obtain canvas where c:
    "mosaic_getter_grid ?G (int 2) (int 9) () = Inr (Some canvas)"
    "shape canvas = (nat \<lceil>real (length ?G) / real 2\<rceil> * 9, 2 * 16)"
    "\<forall>i<length ?G.
                 pastes canvas ! i =
                   ((i div 2 * 9, (i div 2 + 1) * 9, i mod 2 * 16, (i mod 2 + 1) * 16),
                    Resized (?cells ! i) 16 9)
                 \<and> shape (Resized (?cells ! i) 16 9) = (9, 16)
                 \<and> ((?G ! i) () = None \<longrightarrow> ?cells ! i = Zeros 9 16)"
    "\<forall>y x. pixel_src canvas y x =
                 (if x < 2 * 16 \<and> y div 9 * 2 + x div 16 < length ?G
                  then Some (Resized (?cells ! (y div 9 * 2 + x div 16)) 16 9)
                  else None)"
    by auto
  have s: "shape canvas = (3 * 9, 2 * 16)"
    using c(2) by (simp add: ceiling_five_halves)
  have p1: "pastes canvas ! 1 = ((0, 9, 16, 32), Resized (Zeros 9 16) 16 9)"
    using c(3) [rule_format, of 1] by simp
  have p4: "pastes canvas ! 4 = ((18, 27, 0, 16), Resized (Decoded 10 10 4) 16 9)"
    using c(3) [rule_format, of 4] by simp
  have x1: "pixel_src canvas 20 5 = Some (Resized (Decoded 10 10 4) 16 9)"
    using c(4) [rule_format, of 20 5] by simp
  have x2: "pixel_src canvas 20 20 = None"
    using c(4) [rule_format, of 20 20] by simp
  show ?thesis using c(1) s p1 p4 x1 x2 by simp
qed

section \<open>Sources that are all empty\<close>

text \<open>
  C6, as the code has it. When every accessor returns None the row compositor returns
  None. The grid compositor returns None for the empty list only: for a list that is not
  empty it never returns None, and with at least one column and a cell height of at
  least one it returns the canvas of the grid's size, every cell of it blank.
\<close>

theorem all_sources_empty:
  fixes c h :: nat
  shows "((\<forall>g\<in>set gs. g () = None) \<longrightarrow> mosaic_getter_row gs () = Inr None)
       \<and> mosaic_getter_grid [] cols cell_h () = Inr None
       \<and> (gs \<noteq> [] \<longrightarrow> mosaic_getter_grid gs cols cell_h () \<noteq> Inr None)
       \<and> (gs \<noteq> [] \<and> (\<forall>g\<in>set gs. g () = None) \<and> 1 \<le> c \<and> 1 \<le> h \<longrightarrow>
            (\<exists>canvas. mosaic_getter_grid gs (int c) (int h) () = Inr (Some canvas)
               \<and> shape canvas = (nat \<lceil>real (length gs) / real c\<rceil> * h,
                                  c * nat (cell_width (int h)))
               \<and> length (pastes canvas) = length gs
               \<and> (\<forall>p\<in>set (pastes canvas). blank (snd p))))"
proof (intro conjI impI)
  assume "\<forall>g\<in>set gs. g () = None"
  then show "mosaic_getter_row gs () = Inr None"
    unfolding mosaic_getter_row_def by (simp add: row_all_none)
next
  show "mosaic_getter_grid [] cols cell_h () = Inr None"
    unfolding mosaic_getter_grid_def by simp
next
  assume "gs \<noteq> []"
  then show "mosaic_getter_grid gs cols cell_h () \<noteq> Inr None" by (rule grid_not_none)
next
  assume a: "gs \<noteq> [] \<and> (\<forall>g\<in>set gs. g () = None) \<and> 1 \<le> c \<and> 1 \<le> h"
  define cw where "cw = h * 16 div 9"
  define cells where "cells = map (\<lambda>g. case g () of Some f \<Rightarrow> f | None \<Rightarrow> Zeros h cw) gs"
  have cwn: "nat (cell_width (int h)) = cw"
    unfolding cw_def by (simp only: cell_width_nat nat_int)
  have "\<forall>g\<in>set gs. \<forall>f. g () = Some f \<longrightarrow> fst (shape f) \<noteq> 0 \<and> snd (shape f) \<noteq> 0"
    using a by auto
  from grid_canvas [OF _ _ _ this cw_def cells_def, of c] a
  obtain canvas where cv: "mosaic_getter_grid gs (int c) (int h) () = Inr (Some canvas)"
    "shape canvas = (nat \<lceil>real (length gs) / real c\<rceil> * h, c * cw)"
    "pastes canvas = map (\<lambda>i. grid_cell c cw h i (cells ! i)) [0..<length gs]"
    by auto
  have "\<forall>i<length gs. cells ! i = Zeros h cw"
    using a unfolding cells_def by (simp add: all_set_conv_all_nth)
  then have "\<forall>p\<in>set (pastes canvas). blank (snd p)"
    unfolding cv(3) by (auto simp: grid_cell_def)
  moreover have "length (pastes canvas) = length gs" unfolding cv(3) by simp
  ultimately show "\<exists>canvas. mosaic_getter_grid gs (int c) (int h) () = Inr (Some canvas)
               \<and> shape canvas = (nat \<lceil>real (length gs) / real c\<rceil> * h,
                                  c * nat (cell_width (int h)))
               \<and> length (pastes canvas) = length gs
               \<and> (\<forall>p\<in>set (pastes canvas). blank (snd p))"
    using cv(1,2) cwn by blast
qed


text \<open>
  C6 as stated fails for the grid: one accessor that returns None gives a canvas, not
  None.
\<close>

theorem grid_all_empty_counterexample:
  "no_frame () = None \<and>
   mosaic_getter_grid [no_frame] 2 360 ()
     = Inr (Some (Paste (Zeros 360 1280) 0 360 0 640 (Resized (Zeros 360 640) 640 360)))"
  by (simp add: mosaic_getter_grid_def no_frame_def cell_width_360 np_zeros_def ceil_div_int
      cv2_resize_def set_slice_def py_slice_def)


text \<open>Three accessors that return None, in two columns with cells of 9 by 16.\<close>

theorem all_sources_empty_witness:
  "no_frame () = None
   \<and> [no_frame, no_frame, no_frame] \<noteq> [] \<and> (1::nat) \<le> 2 \<and> (1::nat) \<le> 9
   \<and> mosaic_getter_row [no_frame, no_frame, no_frame] () = Inr None
   \<and> mosaic_getter_grid [no_frame, no_frame, no_frame] 2 9 () \<noteq> Inr None
   \<and> (\<exists>canvas. mosaic_getter_grid [no_frame, no_frame, no_frame] 2 9 () = Inr (Some canvas)
         \<and> shape canvas = (2 * 9, 2 * 16)
         \<and> length (pastes canvas) = 3
         \<and> (\<forall>p\<in>set (pastes canvas). blank (snd p)))"
proof -
  have n: "\<forall>g\<in>set [no_frame, no_frame, no_frame]. g () = None"
    by (simp add: no_frame_def)
  have r: "nat \<lceil>real (length [no_frame, no_frame, no_frame]) / real (2::nat)\<rceil> = 2"
    by (simp add: ceiling_eq_iff)
  have w: "nat (cell_width (int 9)) = 16"
    by (simp add: cell_width_nonneg)
  show ?thesis
    using all_sources_empty [of "[no_frame, no_frame, no_frame]" 2 9 2 9] n
    unfolding r w by (simp add: numeral_3_eq_3)
qed

section \<open>Capture actor: failed reads\<close>

lemma iteration_failed: "read_failed w t \<Longrightarrow> iteration w t = on_read_failure w t"
  unfolding read_failed_def iteration_def
  by (cases "cap_read w t") (auto split: bool.splits option.splits)

lemma iteration_read: "cap_read w t = (True, Some im) \<Longrightarrow> iteration w t = on_frame im t"
  unfolding iteration_def by simp

lemma placeholder_stored:
  assumes "0 < target_h t"
  shows "cv2_putText (Zeros (nat (target_h t)) (nat (target_h t)))
           (Text (label t @ '' (reconectando...)'')) (10, 30) (0, 0, 255)
         = Inr (placeholder (label t) (nat (target_h t)))"
  using assms by (simp add: cv2_putText_def placeholder_def)

lemma on_read_failure_frame:
  assumes "0 < target_h t"
  shows "frame (snd (on_read_failure w t)) = Some (placeholder (label t) (nat (target_h t)))"
    and "phase (snd (on_read_failure w t)) = phase t"
    and "stop_flag (snd (on_read_failure w t)) = stop_flag t"
    and "target_h (snd (on_read_failure w t)) = target_h t"
    and "label (snd (on_read_failure w t)) = label t"
    and "Published (placeholder (label t) (nat (target_h t))) \<in> set (fst (on_read_failure w t))"
  using assms placeholder_stored [OF assms]
  by (simp_all add: on_read_failure_def Let_def np_zeros_def open_cap_def)

lemma on_read_failure_opens:
  "filter is_open_event (fst (on_read_failure w t)) =
     (if reconnect_delay_s t \<le> now1 w - last_try t then [Opened (open_result w)] else [])"
  by (simp add: on_read_failure_def Let_def open_events_def split: sum.splits)

lemma on_read_failure_released:
  "Released \<in> set (fst (on_read_failure w t)) \<longleftrightarrow>
     reconnect_delay_s t \<le> now1 w - last_try t \<and> cap t \<noteq> None"
  by (simp add: on_read_failure_def Let_def open_events_def split: sum.splits)

lemma on_read_failure_cap:
  "cap (snd (on_read_failure w t)) =
     (if reconnect_delay_s t \<le> now1 w - last_try t
      then (case open_result w of
              Connected \<Rightarrow> Some (VideoCapture True)
            | NotConnected \<Rightarrow> Some (VideoCapture False)
            | OpenRaised \<Rightarrow> None)
      else cap t)"
  by (simp add: on_read_failure_def Let_def open_cap_def split: sum.splits)

lemma on_read_failure_last_try:
  "last_try (snd (on_read_failure w t)) =
     (if reconnect_delay_s t \<le> now1 w - last_try t then now2 w else last_try t)"
  by (simp add: on_read_failure_def Let_def open_cap_def split: sum.splits)

lemma on_read_failure_delay:
  "reconnect_delay_s (snd (on_read_failure w t)) = reconnect_delay_s t"
  by (simp add: on_read_failure_def Let_def open_cap_def split: sum.splits)

lemma on_frame_quiet:
  "filter is_open_event (fst (on_frame im t)) = []"
  "Released \<notin> set (fst (on_frame im t))"
  "last_try (snd (on_frame im t)) = last_try t"
  "cap (snd (on_frame im t)) = cap t"
  by (simp_all add: on_frame_def Let_def split: sum.splits)

lemma offline_read_failed: "offline t \<Longrightarrow> read_failed w t"
  unfolding offline_def read_failed_def cap_read_def by (auto split: option.splits)

lemma offline_step:
  assumes "offline t" "open_result w \<noteq> Connected" "0 < target_h t"
  shows "offline (snd (run_step w t))"
    and "frame (snd (run_step w t)) = Some (placeholder (label t) (nat (target_h t)))"
    and "target_h (snd (run_step w t)) = target_h t"
    and "label (snd (run_step w t)) = label t"
proof -
  have rs: "run_step w t = on_read_failure w t"
    using assms(1) offline_read_failed [OF assms(1), of w]
    by (simp add: run_step_def offline_def iteration_failed)
  show "frame (snd (run_step w t)) = Some (placeholder (label t) (nat (target_h t)))"
    and "target_h (snd (run_step w t)) = target_h t"
    and "label (snd (run_step w t)) = label t"
    unfolding rs using assms(3) by (simp_all add: on_read_failure_frame)
  have "\<forall>c. cap (snd (on_read_failure w t)) = Some c \<longrightarrow> \<not> is_opened c"
    unfolding on_read_failure_cap using assms(1,2)
    by (cases "open_result w") (auto simp: offline_def)
  then show "offline (snd (run_step w t))"
    unfolding rs offline_def using assms(1,3)
    by (simp add: on_read_failure_frame offline_def)
qed

lemma run_snoc_free:
  "snd (run (w # ws) t) = snd (run ws (snd (run_step w t)))"
  by (simp add: split_beta Let_def)

lemma offline_run:
  assumes "offline t" "0 < target_h t" "\<forall>w\<in>set ws. open_result w \<noteq> Connected"
    and "frame t = Some (placeholder (label t) (nat (target_h t)))"
  shows "frame (snd (run ws t)) = Some (placeholder (label t) (nat (target_h t)))"
  using assms
proof (induction ws arbitrary: t)
  case Nil
  then show ?case by simp
next
  case (Cons w ws)
  let ?t = "snd (run_step w t)"
  have w: "open_result w \<noteq> Connected" using Cons.prems(3) by simp
  note st = offline_step [OF Cons.prems(1) w Cons.prems(2)]
  have "frame (snd (run ws ?t)) = Some (placeholder (label ?t) (nat (target_h ?t)))"
    using Cons.prems(2,3) st by (intro Cons.IH) simp_all
  then show ?case unfolding run_snoc_free using st(3,4) by simp
qed

lemma first_step_offline:
  assumes "open_result w \<noteq> Connected"
  shows "offline (snd (run_step w (start (CaptureThread nm u lbl th))))"
    and "target_h (snd (run_step w (start (CaptureThread nm u lbl th)))) = th"
    and "label (snd (run_step w (start (CaptureThread nm u lbl th)))) = lbl"
  using assms
  by (cases "open_result w";
      simp add: run_step_def start_def CaptureThread_def open_cap_def offline_def)+

text \<open>
  \<open>_resize_h\<close> with the floats of the code: a frame of 800 by 600 resized to a height of
  690 gets a width of 919, where the exact product would give 920.
\<close>

lemma resize_h_example:
  "resize_h (Decoded 600 800 0) 690 = Inr (Resized (Decoded 600 800 0) 919 690)"
  by (simp add: resize_h_def int_times_double_def cv2_resize_def float_eval)

lemmas actor_eval = looping_def down_def up_def CaptureThread_def read_failed_def cap_read_def
  run_step_def iteration_def on_read_failure_def on_frame_def open_cap_def open_events_def
  np_zeros_def cv2_putText_def get_frame_def start_def Let_def

text \<open>
  C7, as the code has it. In a loop iteration whose read fails, with a target height of at
  least one, the actor stores as its latest frame the placeholder: a black image of
  \<open>target_h\<close> by \<open>target_h\<close> with the text \<open><label> (reconectando...)\<close>. This holds for
  every outcome of the reopen and for every reading of the clock, that is, whether or not
  a reconnect was attempted and whatever it gave. An actor that never connects therefore
  serves that placeholder after its first loop iteration (the second step of its thread:
  the first is the initial open) and after every later one.
\<close>

theorem placeholder_on_failure:
  "(phase t = Looping \<and> \<not> stop_flag t \<and> read_failed w t \<and> 0 < target_h t \<longrightarrow>
      get_frame (snd (run_step w t)) = Some (placeholder (label t) (nat (target_h t)))
      \<and> Published (placeholder (label t) (nat (target_h t))) \<in> set (fst (run_step w t))
      \<and> shape (placeholder (label t) (nat (target_h t))) = (nat (target_h t), nat (target_h t)))
   \<and> (0 < th \<and> (\<forall>w\<in>set ws. open_result w \<noteq> Connected) \<and> 2 \<le> length ws \<longrightarrow>
        get_frame (snd (run ws (start (CaptureThread nm u lbl th))))
          = Some (placeholder lbl (nat th)))"
proof (intro conjI impI)
  assume a: "phase t = Looping \<and> \<not> stop_flag t \<and> read_failed w t \<and> 0 < target_h t"
  then have rs: "run_step w t = on_read_failure w t"
    by (simp add: run_step_def iteration_failed)
  show "get_frame (snd (run_step w t)) = Some (placeholder (label t) (nat (target_h t)))"
    unfolding rs get_frame_def using a by (simp add: on_read_failure_frame)
  show "Published (placeholder (label t) (nat (target_h t))) \<in> set (fst (run_step w t))"
    unfolding rs using a by (simp add: on_read_failure_frame)
  show "shape (placeholder (label t) (nat (target_h t))) = (nat (target_h t), nat (target_h t))"
    by (simp add: placeholder_def)
next
  assume b: "0 < th \<and> (\<forall>w\<in>set ws. open_result w \<noteq> Connected) \<and> 2 \<le> length ws"
  then obtain w0 w1 rest where ws: "ws = w0 # w1 # rest"
    by (cases ws; cases "tl ws") auto
  let ?t0 = "start (CaptureThread nm u lbl th)"
  let ?t1 = "snd (run_step w0 ?t0)"
  let ?t2 = "snd (run_step w1 ?t1)"
  have w: "open_result w0 \<noteq> Connected" "open_result w1 \<noteq> Connected"
    "\<forall>w\<in>set rest. open_result w \<noteq> Connected"
    using b ws by simp_all
  note f = first_step_offline [OF w(1), of nm u lbl th]
  have th1: "0 < target_h ?t1" using b f(2) by simp
  note s = offline_step [OF f(1) w(2) th1]
  have "frame (snd (run rest ?t2)) = Some (placeholder (label ?t2) (nat (target_h ?t2)))"
    using s th1 w(3) by (intro offline_run) simp_all
  then show "get_frame (snd (run ws ?t0)) = Some (placeholder lbl (nat th))"
    unfolding ws run_snoc_free get_frame_def using s(3,4) f(2,3) by simp
qed

text \<open>
  C7 as stated fails in four ways. With a negative target height, which \<open>start_streams\<close>
  accepts, \<open>np.zeros\<close> raises; with a target height of zero \<open>cv2.putText\<close> raises on
  the empty array: in both cases the thread dies and the accessor keeps returning None.
  The text on the placeholder is \<open>(reconectando...)\<close>, not \<open>(reconnecting...)\<close>. And the
  placeholder does not come within one cool-down period of the start: the state after
  the initial open serves no frame yet, and in the first iteration the clock reads 100
  before the reopen and 105 after it, three seconds more than the cool-down, and the
  placeholder is stored only after that.
\<close>

theorem placeholder_counterexample:
  "read_failed (down 100 101) (looping (- 1) False 0)
   \<and> get_frame (snd (run_step (down 100 101) (looping (- 1) False 0))) = None
   \<and> phase (snd (run_step (down 100 101) (looping (- 1) False 0))) = Crashed ValueError
   \<and> read_failed (down 100 101) (looping 0 False 0)
   \<and> get_frame (snd (run_step (down 100 101) (looping 0 False 0))) = None
   \<and> phase (snd (run_step (down 100 101) (looping 0 False 0))) = Crashed CvError
   \<and> get_frame (snd (run_step (down 100 101) (looping 360 False 0)))
        = Some (PutText (Zeros 360 360) (Text ''CH1 (reconectando...)'') (10, 30) (0, 0, 255))
   \<and> ''CH1 (reconectando...)'' \<noteq> ''CH1 (reconnecting...)''
   \<and> snd (run_step (down 99 100) (start (CaptureThread ''CH1'' ''rtsp://dvr'' ''CH1'' 360)))
        = looping 360 False 0
   \<and> get_frame (looping 360 False 0) = None
   \<and> fst (run_step (down 100 105) (looping 360 False 0))
        = [Released, Opened NotConnected,
           Published (PutText (Zeros 360 360) (Text ''CH1 (reconectando...)'') (10, 30)
                        (0, 0, 255)),
           Slept (1 / 20)]
   \<and> last_try (snd (run_step (down 100 105) (looping 360 False 0))) = 105
   \<and> reconnect_delay_s (looping 360 False 0) < 105 - 100"
  by (simp add: actor_eval)

text \<open>A target height of 360 and a network that stays down for three steps.\<close>

theorem placeholder_on_failure_witness:
  "phase (looping 360 False 0) = Looping \<and> \<not> stop_flag (looping 360 False 0)
   \<and> read_failed (down 100 101) (looping 360 False 0) \<and> 0 < target_h (looping 360 False 0)
   \<and> get_frame (snd (run_step (down 100 101) (looping 360 False 0)))
        = Some (PutText (Zeros 360 360) (Text ''CH1 (reconectando...)'') (10, 30) (0, 0, 255))
   \<and> (0::int) < 360
   \<and> open_result (down 100 101) \<noteq> Connected \<and> open_result (down 103 104) \<noteq> Connected
   \<and> 2 \<le> length [down 100 101, down 100 101, down 103 104]
   \<and> get_frame (snd (run [down 100 101, down 100 101, down 103 104]
                        (start (CaptureThread ''CH1'' ''rtsp://dvr'' ''CH1'' 360))))
        = Some (PutText (Zeros 360 360) (Text ''CH1 (reconectando...)'') (10, 30) (0, 0, 255))"
proof -
  have h1: "phase (looping 360 False 0) = Looping \<and> \<not> stop_flag (looping 360 False 0)
     \<and> read_failed (down 100 101) (looping 360 False 0) \<and> 0 < target_h (looping 360 False 0)"
    by (simp add: looping_def down_def CaptureThread_def read_failed_def cap_read_def)
  have h2: "(0::int) < 360
     \<and> (\<forall>w\<in>set [down 100 101, down 100 101, down 103 104]. open_result w \<noteq> Connected)
     \<and> 2 \<le> length [down 100 101, down 100 101, down 103 104]"
    by (simp add: down_def)
  have l: "label (looping 360 False 0) = ''CH1''" "target_h (looping 360 False 0) = 360"
    by (simp_all add: looping_def CaptureThread_def)
  show ?thesis
    using placeholder_on_failure [of "looping 360 False 0" "down 100 101" 360
        "[down 100 101, down 100 101, down 103 104]" "''CH1''" "''rtsp://dvr''" "''CH1''"]
      h1 h2
    unfolding l by (simp add: placeholder_def)
qed

section \<open>Capture actor: reconnection\<close>

text \<open>
  C8. In a loop iteration whose read fails the actor calls \<open>_open\<close> once if the clock
  is at least \<open>reconnect_delay_s\<close> past \<open>last_try\<close> and not at all otherwise. When it
  does, the old handle, if there is one, is released, the actor's handle becomes the one
  the open gave (none when the constructor raised), and \<open>last_try\<close> becomes the clock
  read after the open, whatever the open gave. When it does not, nothing is released and
  the handle stays. The state holds no count of failures: the statement is about any
  actor in its loop, whatever came before. An iteration that reads a frame does not
  reopen or release, and keeps the handle. The delay of an actor is two seconds and
  never changes.
\<close>

theorem reconnect_is_time_based:
  "(phase t = Looping \<and> \<not> stop_flag t \<and> read_failed w t \<longrightarrow>
      filter is_open_event (fst (run_step w t))
        = (if reconnect_delay_s t \<le> now1 w - last_try t then [Opened (open_result w)] else [])
      \<and> (Released \<in> set (fst (run_step w t))
           \<longleftrightarrow> reconnect_delay_s t \<le> now1 w - last_try t \<and> cap t \<noteq> None)
      \<and> cap (snd (run_step w t))
        = (if reconnect_delay_s t \<le> now1 w - last_try t
           then (case open_result w of
                   Connected \<Rightarrow> Some (VideoCapture True)
                 | NotConnected \<Rightarrow> Some (VideoCapture False)
                 | OpenRaised \<Rightarrow> None)
           else cap t)
      \<and> last_try (snd (run_step w t))
        = (if reconnect_delay_s t \<le> now1 w - last_try t then now2 w else last_try t)
      \<and> reconnect_delay_s (snd (run_step w t)) = reconnect_delay_s t)
   \<and> (phase t = Looping \<and> \<not> stop_flag t \<and> \<not> read_failed w t \<longrightarrow>
        filter is_open_event (fst (run_step w t)) = []
        \<and> Released \<notin> set (fst (run_step w t))
        \<and> cap (snd (run_step w t)) = cap t
        \<and> last_try (snd (run_step w t)) = last_try t)
   \<and> reconnect_delay_s (CaptureThread nm u lbl th) = 2"
proof (intro conjI impI)
  assume a: "phase t = Looping \<and> \<not> stop_flag t \<and> read_failed w t"
  then have rs: "run_step w t = on_read_failure w t"
    by (simp add: run_step_def iteration_failed)
  show "filter is_open_event (fst (run_step w t))
        = (if reconnect_delay_s t \<le> now1 w - last_try t then [Opened (open_result w)] else [])"
    unfolding rs by (rule on_read_failure_opens)
  show "Released \<in> set (fst (run_step w t))
           \<longleftrightarrow> reconnect_delay_s t \<le> now1 w - last_try t \<and> cap t \<noteq> None"
    unfolding rs by (rule on_read_failure_released)
  show "cap (snd (run_step w t))
        = (if reconnect_delay_s t \<le> now1 w - last_try t
           then (case open_result w of
                   Connected \<Rightarrow> Some (VideoCapture True)
                 | NotConnected \<Rightarrow> Some (VideoCapture False)
                 | OpenRaised \<Rightarrow> None)
           else cap t)"
    unfolding rs by (rule on_read_failure_cap)
  show "last_try (snd (run_step w t))
        = (if reconnect_delay_s t \<le> now1 w - last_try t then now2 w else last_try t)"
    unfolding rs by (rule on_read_failure_last_try)
  show "reconnect_delay_s (snd (run_step w t)) = reconnect_delay_s t"
    unfolding rs by (rule on_read_failure_delay)
next
  assume a: "phase t = Looping \<and> \<not> stop_flag t \<and> \<not> read_failed w t"
  then obtain im where "cap_read w t = (True, Some im)"
    unfolding read_failed_def by (cases "cap_read w t") auto
  then have rs: "run_step w t = on_frame im t"
    using a by (simp add: run_step_def iteration_read)
  show "filter is_open_event (fst (run_step w t)) = []"
    unfolding rs by (rule on_frame_quiet)
  show "Released \<notin> set (fst (run_step w t))"
    unfolding rs by (rule on_frame_quiet)
  show "cap (snd (run_step w t)) = cap t"
    unfolding rs by (rule on_frame_quiet)
  show "last_try (snd (run_step w t)) = last_try t"
    unfolding rs by (rule on_frame_quiet)
next
  show "reconnect_delay_s (CaptureThread nm u lbl th) = 2"
    by (simp add: CaptureThread_def)
qed

text \<open>
  An actor whose last attempt was at time 100, with a handle that is not opened: a failed
  read at 101 does not reopen and keeps the handle; one at 102 releases the handle, opens
  a new one and records 105. An actor with an opened handle that reads a frame does not
  reopen and keeps its handle.
\<close>

theorem reconnect_is_time_based_witness:
  "phase (looping 360 False 100) = Looping \<and> \<not> stop_flag (looping 360 False 100)
   \<and> read_failed (down 101 105) (looping 360 False 100)
   \<and> read_failed (down 102 105) (looping 360 False 100)
   \<and> filter is_open_event (fst (run_step (down 101 105) (looping 360 False 100))) = []
   \<and> Released \<notin> set (fst (run_step (down 101 105) (looping 360 False 100)))
   \<and> cap (snd (run_step (down 101 105) (looping 360 False 100))) = Some (VideoCapture False)
   \<and> last_try (snd (run_step (down 101 105) (looping 360 False 100))) = 100
   \<and> filter is_open_event (fst (run_step (down 102 105) (looping 360 False 100)))
        = [Opened NotConnected]
   \<and> Released \<in> set (fst (run_step (down 102 105) (looping 360 False 100)))
   \<and> cap (snd (run_step (down 102 105) (looping 360 False 100))) = Some (VideoCapture False)
   \<and> last_try (snd (run_step (down 102 105) (looping 360 False 100))) = 105
   \<and> phase (looping 360 True 100) = Looping \<and> \<not> stop_flag (looping 360 True 100)
   \<and> \<not> read_failed (up (Decoded 720 1280 0)) (looping 360 True 100)
   \<and> filter is_open_event (fst (run_step (up (Decoded 720 1280 0)) (looping 360 True 100))) = []
   \<and> cap (snd (run_step (up (Decoded 720 1280 0)) (looping 360 True 100)))
        = Some (VideoCapture True)
   \<and> last_try (snd (run_step (up (Decoded 720 1280 0)) (looping 360 True 100))) = 100"
proof -
  have h: "phase (looping 360 False 100) = Looping \<and> \<not> stop_flag (looping 360 False 100)
     \<and> read_failed (down 101 105) (looping 360 False 100)
     \<and> read_failed (down 102 105) (looping 360 False 100)
     \<and> phase (looping 360 True 100) = Looping \<and> \<not> stop_flag (looping 360 True 100)
     \<and> \<not> read_failed (up (Decoded 720 1280 0)) (looping 360 True 100)"
    by (simp add: looping_def down_def up_def CaptureThread_def read_failed_def cap_read_def)
  have v: "reconnect_delay_s (looping 360 False 100) = 2" "last_try (looping 360 False 100) = 100"
    "last_try (looping 360 True 100) = 100"
    "cap (looping 360 False 100) = Some (VideoCapture False)"
    "cap (looping 360 True 100) = Some (VideoCapture True)"
    "now1 (down 101 105) = 101" "now1 (down 102 105) = 102" "now2 (down 102 105) = 105"
    "open_result (down 102 105) = NotConnected"
    by (simp_all add: looping_def down_def CaptureThread_def)
  show ?thesis
    using reconnect_is_time_based [of "looping 360 False 100" "down 101 105"]
      reconnect_is_time_based [of "looping 360 False 100" "down 102 105"]
      reconnect_is_time_based [of "looping 360 True 100" "up (Decoded 720 1280 0)"]
      h
    unfolding v by simp
qed

section \<open>Stream state\<close>

lemma ints_of_fail: "\<exists>x\<in>set xs. isl (py_int x) \<Longrightarrow> \<exists>e. ints_of xs = Inl e"
proof (induction xs)
  case Nil
  then show ?case by simp
next
  case (Cons a xs)
  show ?case
  proof (cases "py_int a")
    case (Inl e)
    then show ?thesis by simp
  next
    case (Inr i)
    then have "\<exists>x\<in>set xs. isl (py_int x)" using Cons.prems by auto
    then obtain e where "ints_of xs = Inl e" using Cons.IH by blast
    then show ?thesis using Inr by simp
  qed
qed

lemma ints_of_ints: "ints_of (map PyInt chs) = Inr chs"
  by (induction chs) simp_all








lemma fold_start_config:
  "config (fold (start_channel ip_addr usr pwd sub th) chs s) = config s"
  by (induction chs arbitrary: s) (simp_all add: start_channel_def Let_def)

lemma start_channel_registry:
  assumes "registry_ok s"
  shows "registry_ok (start_channel ip_addr usr pwd sub th ch s)"
    and "dom (map_of (getters (start_channel ip_addr usr pwd sub th ch s)))
           = insert ch (dom (map_of (getters s)))"
    and "dom (map_of (threads (start_channel ip_addr usr pwd sub th ch s)))
           = insert ch (dom (map_of (threads s)))"
proof -
  let ?s = "start_channel ip_addr usr pwd sub th ch s"
  have g: "map_of (getters ?s) = (map_of (getters s))(ch \<mapsto> length (actors s))"
    and t: "map_of (threads ?s) = (map_of (threads s))(ch \<mapsto> length (actors s))"
    and a: "actors ?s = actors s @ [new_actor ip_addr usr pwd sub th ch]"
    by (simp_all add: start_channel_def Let_def AList.update_conv' new_actor_def)
  have n: "label (new_actor ip_addr usr pwd sub th ch) = ''CH'' @ int_str ch"
    "phase (new_actor ip_addr usr pwd sub th ch) = Started"
    "\<not> stop_flag (new_actor ip_addr usr pwd sub th ch)"
    by (simp_all add: new_actor_def start_def CaptureThread_def)
  show "registry_ok ?s"
    unfolding registry_ok_def
  proof (intro allI impI)
    fix c tid assume h: "map_of (getters ?s) c = Some tid"
    show "tid < length (actors ?s) \<and> map_of (threads ?s) c = Some tid
        \<and> label (actors ?s ! tid) = ''CH'' @ int_str c \<and> phase (actors ?s ! tid) = Started
        \<and> \<not> stop_flag (actors ?s ! tid)"
    proof (cases "c = ch")
      case True
      then have "tid = length (actors s)" using h g by simp
      then show ?thesis using True n unfolding t a by simp
    next
      case False
      then have "map_of (getters s) c = Some tid" using h g by simp
      then have "tid < length (actors s) \<and> map_of (threads s) c = Some tid
        \<and> label (actors s ! tid) = ''CH'' @ int_str c \<and> phase (actors s ! tid) = Started
        \<and> \<not> stop_flag (actors s ! tid)"
        using assms unfolding registry_ok_def by blast
      then show ?thesis using False unfolding t a by (simp add: nth_append)
    qed
  qed
  show "dom (map_of (getters (start_channel ip_addr usr pwd sub th ch s)))
           = insert ch (dom (map_of (getters s)))"
    by (simp add: start_channel_def Let_def AList.update_conv')
  show "dom (map_of (threads (start_channel ip_addr usr pwd sub th ch s)))
           = insert ch (dom (map_of (threads s)))"
    by (simp add: start_channel_def Let_def AList.update_conv')
qed

lemma fold_start_registry:
  assumes "registry_ok s"
  shows "registry_ok (fold (start_channel ip_addr usr pwd sub th) chs s)
     \<and> dom (map_of (getters (fold (start_channel ip_addr usr pwd sub th) chs s)))
           = dom (map_of (getters s)) \<union> set chs
     \<and> dom (map_of (threads (fold (start_channel ip_addr usr pwd sub th) chs s)))
           = dom (map_of (threads s)) \<union> set chs"
  using assms
proof (induction chs arbitrary: s)
  case Nil
  then show ?case by simp
next
  case (Cons ch chs)
  note st = start_channel_registry [OF Cons.prems, of ip_addr usr pwd sub th ch]
  from Cons.IH [OF st(1)] show ?case
    unfolding st(2,3) by auto
qed


lemma dom_keys: "fst ` set al = dom (map_of al)"
  by (simp add: dom_map_of_conv_image_fst)


lemmas parse_eval = int_of_str_def is_space_def is_digit_def in_range_def digit_val_def

text \<open>
  C1. After a call of \<open>start_streams\<close> that returns, the channels argument was coerced
  to a list of integers and the keys of \<open>getters\<close> and of \<open>threads\<close> are exactly the
  members of that list: every requested channel has an accessor, which refers to a
  started actor labelled with the channel, the same one as in \<open>threads\<close>, and every
  other channel has none. A list of integers is coerced to itself, and the call on it
  returns.
\<close>

theorem registry_keys_are_requested_channels:
  "(start_streams ip_addr usr pwd chans sub th s = (Inr (), s') \<longrightarrow>
      (\<exists>chs. coerce_channels chans = Inr chs
         \<and> fst ` set (getters s') = set chs \<and> fst ` set (threads s') = set chs
         \<and> (\<forall>c\<in>set chs. \<exists>tid. get_accessor s' c = Some tid \<and> map_of (threads s') c = Some tid
                \<and> tid < length (actors s') \<and> label (actors s' ! tid) = ''CH'' @ int_str c
                \<and> phase (actors s' ! tid) = Started)
         \<and> (\<forall>c. c \<notin> set chs \<longrightarrow> get_accessor s' c = None)))
   \<and> coerce_channels (PyList (map PyInt chs0)) = Inr chs0
   \<and> fst (start_streams ip_addr usr pwd (PyList (map PyInt chs0)) sub th s) = Inr ()"
proof (intro conjI impI)
  assume a: "start_streams ip_addr usr pwd chans sub th s = (Inr (), s')"
  then obtain chs where chs: "coerce_channels chans = Inr chs"
    unfolding start_streams_def by (cases "coerce_channels chans") simp_all
  define s3 where "s3 = (stop_all_locked s)\<lparr>threads := [], getters := [],
      config := \<lparr>cfg_ip = ip_addr, cfg_user = usr, cfg_password = pwd, cfg_channels = chs,
                 cfg_subtype = sub, cfg_target_height = th\<rparr>\<rparr>"
  have s': "s' = fold (start_channel ip_addr usr pwd sub th) chs s3"
    using a chs unfolding start_streams_def s3_def by (simp add: Let_def)
  have "registry_ok s3" unfolding registry_ok_def s3_def by simp
  from fold_start_registry [OF this, of ip_addr usr pwd sub th chs]
  have ok: "registry_ok s'" and dg: "dom (map_of (getters s')) = set chs"
    and dt: "dom (map_of (threads s')) = set chs"
    unfolding s' s3_def by simp_all
  have present: "\<forall>c\<in>set chs. \<exists>tid. get_accessor s' c = Some tid \<and> map_of (threads s') c = Some tid
                \<and> tid < length (actors s') \<and> label (actors s' ! tid) = ''CH'' @ int_str c
                \<and> phase (actors s' ! tid) = Started"
  proof
    fix c assume "c \<in> set chs"
    then obtain tid where "map_of (getters s') c = Some tid" using dg by blast
    then show "\<exists>tid. get_accessor s' c = Some tid \<and> map_of (threads s') c = Some tid
                \<and> tid < length (actors s') \<and> label (actors s' ! tid) = ''CH'' @ int_str c
                \<and> phase (actors s' ! tid) = Started"
      using ok unfolding registry_ok_def get_accessor_def by blast
  qed
  have absent: "\<forall>c. c \<notin> set chs \<longrightarrow> get_accessor s' c = None"
    using dg unfolding get_accessor_def by blast
  show "\<exists>chs. coerce_channels chans = Inr chs
         \<and> fst ` set (getters s') = set chs \<and> fst ` set (threads s') = set chs
         \<and> (\<forall>c\<in>set chs. \<exists>tid. get_accessor s' c = Some tid \<and> map_of (threads s') c = Some tid
                \<and> tid < length (actors s') \<and> label (actors s' ! tid) = ''CH'' @ int_str c
                \<and> phase (actors s' ! tid) = Started)
         \<and> (\<forall>c. c \<notin> set chs \<longrightarrow> get_accessor s' c = None)"
    using chs dg dt present absent unfolding dom_keys by blast
next
  show c: "coerce_channels (PyList (map PyInt chs0)) = Inr chs0"
    by (simp add: ints_of_ints)
  show "fst (start_streams ip_addr usr pwd (PyList (map PyInt chs0)) sub th s) = Inr ()"
    unfolding start_streams_def c by (simp add: Let_def)
qed


text \<open>Channels 1, 2, 3 requested on a state where channel 1 was running; channel 4 is absent.\<close>

theorem registry_keys_are_requested_channels_witness:
  "start_streams ''192.168.0.18'' ''admin'' ''secret'' (PyList [PyInt 1, PyInt 2, PyInt 3]) 0 360
       one_running
     = (Inr (), snd (start_streams ''192.168.0.18'' ''admin'' ''secret''
                       (PyList [PyInt 1, PyInt 2, PyInt 3]) 0 360 one_running))
   \<and> fst ` set (getters (snd (start_streams ''192.168.0.18'' ''admin'' ''secret''
                       (PyList [PyInt 1, PyInt 2, PyInt 3]) 0 360 one_running))) = {1, 2, 3}
   \<and> fst ` set (threads (snd (start_streams ''192.168.0.18'' ''admin'' ''secret''
                       (PyList [PyInt 1, PyInt 2, PyInt 3]) 0 360 one_running))) = {1, 2, 3}
   \<and> get_accessor (snd (start_streams ''192.168.0.18'' ''admin'' ''secret''
                       (PyList [PyInt 1, PyInt 2, PyInt 3]) 0 360 one_running)) 1 \<noteq> None
   \<and> get_accessor (snd (start_streams ''192.168.0.18'' ''admin'' ''secret''
                       (PyList [PyInt 1, PyInt 2, PyInt 3]) 0 360 one_running)) 2 \<noteq> None
   \<and> get_accessor (snd (start_streams ''192.168.0.18'' ''admin'' ''secret''
                       (PyList [PyInt 1, PyInt 2, PyInt 3]) 0 360 one_running)) 3 \<noteq> None
   \<and> (4::int) \<notin> {1, 2, 3}
   \<and> get_accessor (snd (start_streams ''192.168.0.18'' ''admin'' ''secret''
                       (PyList [PyInt 1, PyInt 2, PyInt 3]) 0 360 one_running)) 4 = None"
proof -
  let ?S = "snd (start_streams ''192.168.0.18'' ''admin'' ''secret''
                       (PyList [PyInt 1, PyInt 2, PyInt 3]) 0 360 one_running)"
  have h: "start_streams ''192.168.0.18'' ''admin'' ''secret'' (PyList [PyInt 1, PyInt 2, PyInt 3])
             0 360 one_running = (Inr (), ?S)"
    by (simp add: start_streams_def prod_eq_iff)
  from registry_keys_are_requested_channels
         [of "''192.168.0.18''" "''admin''" "''secret''" "PyList [PyInt 1, PyInt 2, PyInt 3]"
             0 360 one_running ?S "[]"] h
  obtain chs where c: "coerce_channels (PyList [PyInt 1, PyInt 2, PyInt 3]) = Inr chs"
    and k: "fst ` set (getters ?S) = set chs" "fst ` set (threads ?S) = set chs"
    and p: "\<forall>c\<in>set chs. \<exists>tid. get_accessor ?S c = Some tid \<and> map_of (threads ?S) c = Some tid
                \<and> tid < length (actors ?S) \<and> label (actors ?S ! tid) = ''CH'' @ int_str c
                \<and> phase (actors ?S ! tid) = Started"
    and a: "\<forall>c. c \<notin> set chs \<longrightarrow> get_accessor ?S c = None"
    by blast
  have chs: "chs = [1, 2, 3]" using c by simp
  have "\<forall>c\<in>{1, 2, 3}. get_accessor ?S c \<noteq> None"
    using p unfolding chs by fastforce
  moreover have "get_accessor ?S 4 = None"
    using a unfolding chs by simp
  ultimately show ?thesis using h k unfolding chs by simp
qed


section \<open>Invalid channel arguments\<close>

text \<open>
  C10. When \<open>_coerce_channels\<close> raises, \<open>start_streams\<close> raises the same exception and
  leaves the whole state as it was: no actor is stopped, \<open>threads\<close>, \<open>getters\<close> and
  \<open>config\<close> are unchanged. It raises TypeError for a value that is not an integer, a
  list, a tuple or a set, and it raises when an element of a list, tuple or set cannot be
  converted by \<open>int\<close>.
\<close>

theorem invalid_channels_leave_state:
  "(\<forall>e. coerce_channels chans = Inl e \<longrightarrow>
        start_streams ip_addr usr pwd chans sub th s = (Inl e, s))
   \<and> (chans = PyNone \<or> (\<exists>x. chans = PyStr x) \<longrightarrow>
        start_streams ip_addr usr pwd chans sub th s = (Inl TypeError, s))
   \<and> ((\<exists>xs. (chans = PyList xs \<or> chans = PyTuple xs \<or> chans = PySet xs)
             \<and> (\<exists>x\<in>set xs. isl (py_int x))) \<longrightarrow>
        (\<exists>e. start_streams ip_addr usr pwd chans sub th s = (Inl e, s)))"
proof (intro conjI allI impI)
  fix e assume "coerce_channels chans = Inl e"
  then show "start_streams ip_addr usr pwd chans sub th s = (Inl e, s)"
    unfolding start_streams_def by simp
next
  assume "chans = PyNone \<or> (\<exists>x. chans = PyStr x)"
  then have "coerce_channels chans = Inl TypeError" by auto
  then show "start_streams ip_addr usr pwd chans sub th s = (Inl TypeError, s)"
    unfolding start_streams_def by simp
next
  assume "\<exists>xs. (chans = PyList xs \<or> chans = PyTuple xs \<or> chans = PySet xs)
             \<and> (\<exists>x\<in>set xs. isl (py_int x))"
  then obtain xs where xs: "chans = PyList xs \<or> chans = PyTuple xs \<or> chans = PySet xs"
    and bad: "\<exists>x\<in>set xs. isl (py_int x)" by blast
  from ints_of_fail [OF bad] obtain e where "ints_of xs = Inl e" by blast
  then have "coerce_channels chans = Inl e" using xs by auto
  then show "\<exists>e. start_streams ip_addr usr pwd chans sub th s = (Inl e, s)"
    unfolding start_streams_def by simp
qed


text \<open>
  A list with the string \<open>x\<close>, a string in place of the list, and a set holding None, on
  a state with a running actor.
\<close>

theorem invalid_channels_leave_state_witness:
  "coerce_channels (PyList [PyInt 1, PyStr ''x'']) = Inl ValueError
   \<and> start_streams ''192.168.0.18'' ''admin'' ''secret'' (PyList [PyInt 1, PyStr ''x'']) 0 360
        one_running = (Inl ValueError, one_running)
   \<and> start_streams ''192.168.0.18'' ''admin'' ''secret'' (PyStr ''1,2'') 0 360 one_running
        = (Inl TypeError, one_running)
   \<and> PyNone \<in> set [PyInt 1, PyNone] \<and> isl (py_int PyNone)
   \<and> (\<exists>e. start_streams ''192.168.0.18'' ''admin'' ''secret'' (PySet [PyInt 1, PyNone]) 0 360
              one_running = (Inl e, one_running))"
proof -
  have c: "coerce_channels (PyList [PyInt 1, PyStr ''x'']) = Inl ValueError"
    by (simp add: parse_eval)
  have b: "\<exists>xs. (PySet [PyInt 1, PyNone] = PyList xs \<or> PySet [PyInt 1, PyNone] = PyTuple xs
                  \<or> PySet [PyInt 1, PyNone] = PySet xs) \<and> (\<exists>x\<in>set xs. isl (py_int x))"
    by simp
  show ?thesis
    using invalid_channels_leave_state
            [of "PyList [PyInt 1, PyStr ''x'']" "''192.168.0.18''" "''admin''" "''secret''" 0 360
                one_running]
          invalid_channels_leave_state
            [of "PyStr ''1,2''" "''192.168.0.18''" "''admin''" "''secret''" 0 360 one_running]
          invalid_channels_leave_state
            [of "PySet [PyInt 1, PyNone]" "''192.168.0.18''" "''admin''" "''secret''" 0 360
                one_running]
          c b
    by simp
qed


section \<open>Stopping before starting\<close>








section \<open>Stream encoder: pacing\<close>

lemma loop_cases:
  "(got tk = None \<and> (\<exists>st'. clock st' = clock st + d_get tk + 0.03
        \<and> mjpeg_loop enc fps ss sf q st (tk # tks) = Sleep 0.03 # mjpeg_loop enc fps ss sf q st' tks))
   \<or> (got tk \<noteq> None \<and> (\<exists>st'. clock st' = clock st + d_get tk + d_enc tk
        \<and> mjpeg_loop enc fps ss sf q st (tk # tks) = mjpeg_loop enc fps ss sf q st' tks))
   \<or> (got tk \<noteq> None \<and> fps \<noteq> 0 \<and> (\<exists>st' jpeg.
          clock st' = clock st + d_get tk + d_enc tk + max 0 (1 / real_of_int fps)
        \<and> mjpeg_loop enc fps ss sf q st (tk # tks)
            = Yield (clock st + d_get tk + d_enc tk) (chunk jpeg)
                # Sleep (max 0 (1 / real_of_int fps)) # mjpeg_loop enc fps ss sf q st' tks))
   \<or> (got tk \<noteq> None \<and> fps = 0 \<and> (\<exists>jpeg.
          mjpeg_loop enc fps ss sf q st (tk # tks)
            = [Yield (clock st + d_get tk + d_enc tk) (chunk jpeg), Raise ZeroDivisionError]))
   \<or> (got tk \<noteq> None \<and> (\<exists>e. mjpeg_loop enc fps ss sf q st (tk # tks) = [Raise e]))"
proof (cases "got tk")
  case None
  have "clock (st\<lparr>clock := clock st + d_get tk + 0.03\<rparr>) = clock st + d_get tk + 0.03" by simp
  moreover have "mjpeg_loop enc fps ss sf q st (tk # tks)
      = Sleep 0.03 # mjpeg_loop enc fps ss sf q (st\<lparr>clock := clock st + d_get tk + 0.03\<rparr>) tks"
    using None by simp
  ultimately show ?thesis using None by blast
next
  case (Some f)
  define h w now inst ema' r1 where "h = int (fst (shape f))" and "w = int (snd (shape f))"
    and "now = clock st + d_get tk"
    and "inst = 1 / max (1 / 1000000) (now - last st)"
    and "ema' = (if ema st > 0 then (1 - 0.12) * ema st + 0.12 * inst else inst)"
    and "r1 = (if ss then cv2_putText f (Text (ts tk)) (10, h - 12) white else Inr f)"
  define r2 where "r2 = (\<lambda>f1. if sf then cv2_putText f1 (FpsText ema') (w - 180, h - 12) white
                               else Inr f1)"
  have unf: "mjpeg_loop enc fps ss sf q st (tk # tks) =
      (case r1 of
         Inl e \<Rightarrow> [Raise e]
       | Inr f1 \<Rightarrow>
          (case r2 f1 of
             Inl e \<Rightarrow> [Raise e]
           | Inr f2 \<Rightarrow>
              (case cv2_imencode enc f2 q of
                 Inl e \<Rightarrow> [Raise e]
               | Inr None \<Rightarrow>
                   mjpeg_loop enc fps ss sf q \<lparr>clock = now + d_enc tk, last = now, ema = ema'\<rparr> tks
               | Inr (Some jpeg) \<Rightarrow>
                   Yield (now + d_enc tk) (chunk jpeg)
                     # (if fps = 0 then [Raise ZeroDivisionError]
                        else Sleep (max 0 (1 / real_of_int fps))
                               # mjpeg_loop enc fps ss sf q
                                   \<lparr>clock = now + d_enc tk + max 0 (1 / real_of_int fps),
                                    last = now, ema = ema'\<rparr> tks))))"
    using Some unfolding h_def w_def now_def inst_def ema'_def r1_def r2_def
    by (simp add: Let_def)
  have g: "got tk \<noteq> None" using Some by simp
  show ?thesis
  proof (cases r1)
    case (Inl e)
    then have "mjpeg_loop enc fps ss sf q st (tk # tks) = [Raise e]" unfolding unf by simp
    then show ?thesis using g by blast
  next
    case r1: (Inr f1)
    show ?thesis
    proof (cases "r2 f1")
      case (Inl e)
      then have "mjpeg_loop enc fps ss sf q st (tk # tks) = [Raise e]" unfolding unf r1 by simp
      then show ?thesis using g by blast
    next
      case r2: (Inr f2)
      show ?thesis
      proof (cases "cv2_imencode enc f2 q")
        case (Inl e)
        then have "mjpeg_loop enc fps ss sf q st (tk # tks) = [Raise e]"
          unfolding unf r1 by (simp add: r2)
        then show ?thesis using g by blast
      next
        case (Inr res)
        show ?thesis
        proof (cases res)
          case None
          let ?st = "\<lparr>clock = now + d_enc tk, last = now, ema = ema'\<rparr>"
          have "clock ?st = clock st + d_get tk + d_enc tk" by (simp add: now_def)
          moreover have "mjpeg_loop enc fps ss sf q st (tk # tks)
                           = mjpeg_loop enc fps ss sf q ?st tks"
            unfolding unf r1 using Inr None by (simp add: r2)
          ultimately show ?thesis using g by blast
        next
          case (Some jpeg)
          show ?thesis
          proof (cases "fps = 0")
            case True
            have "mjpeg_loop enc fps ss sf q st (tk # tks)
                  = [Yield (clock st + d_get tk + d_enc tk) (chunk jpeg), Raise ZeroDivisionError]"
              unfolding unf r1 using Inr Some True by (simp add: r2 now_def)
            then show ?thesis using g True by blast
          next
            case False
            let ?st = "\<lparr>clock = now + d_enc tk + max 0 (1 / real_of_int fps), last = now,
                        ema = ema'\<rparr>"
            have "clock ?st = clock st + d_get tk + d_enc tk + max 0 (1 / real_of_int fps)"
              by (simp add: now_def)
            moreover have "mjpeg_loop enc fps ss sf q st (tk # tks)
                  = Yield (clock st + d_get tk + d_enc tk) (chunk jpeg)
                      # Sleep (max 0 (1 / real_of_int fps)) # mjpeg_loop enc fps ss sf q ?st tks"
              unfolding unf r1 using Inr Some False by (simp add: r2 now_def)
            ultimately show ?thesis using g False by blast
          qed
        qed
      qed
    qed
  qed
qed

lemma spaced_cons: "(\<forall>u\<in>set us. t + d \<le> u) \<Longrightarrow> spaced d us \<Longrightarrow> spaced d (t # us)"
  by (cases us) simp_all

lemma yield_times_ge:
  assumes "\<forall>tk\<in>set tks. 0 \<le> d_get tk \<and> 0 \<le> d_enc tk"
  shows "\<forall>t\<in>set (yield_times (mjpeg_loop enc fps ss sf q st tks)). clock st \<le> t"
  using assms
proof (induction tks arbitrary: st)
  case Nil
  then show ?case by simp
next
  case (Cons tk tks)
  have d: "0 \<le> d_get tk" "0 \<le> d_enc tk" and r: "\<forall>tk\<in>set tks. 0 \<le> d_get tk \<and> 0 \<le> d_enc tk"
    using Cons.prems by simp_all
  note ih = Cons.IH [OF r]
  have m: "0 \<le> max 0 (1 / real_of_int fps)" by simp
  from loop_cases [of tk st enc fps ss sf q tks] show ?case
  proof (elim disjE conjE exE)
    fix st' assume c: "clock st' = clock st + d_get tk + 0.03"
      and e: "mjpeg_loop enc fps ss sf q st (tk # tks) = Sleep 0.03 # mjpeg_loop enc fps ss sf q st' tks"
    have "clock st \<le> clock st'" using c d by simp
    then show ?thesis unfolding e using ih [of st'] by fastforce
  next
    fix st' assume c: "clock st' = clock st + d_get tk + d_enc tk"
      and e: "mjpeg_loop enc fps ss sf q st (tk # tks) = mjpeg_loop enc fps ss sf q st' tks"
    have "clock st \<le> clock st'" using c d by simp
    then show ?thesis unfolding e using ih [of st'] by fastforce
  next
    fix st' jpeg
    assume c: "clock st' = clock st + d_get tk + d_enc tk + max 0 (1 / real_of_int fps)"
      and e: "mjpeg_loop enc fps ss sf q st (tk # tks)
            = Yield (clock st + d_get tk + d_enc tk) (chunk jpeg)
                # Sleep (max 0 (1 / real_of_int fps)) # mjpeg_loop enc fps ss sf q st' tks"
    have "clock st \<le> clock st'" using c d m by linarith
    moreover have "clock st \<le> clock st + d_get tk + d_enc tk" using d by simp
    ultimately show ?thesis unfolding e using ih [of st'] by fastforce
  next
    fix jpeg
    assume e: "mjpeg_loop enc fps ss sf q st (tk # tks)
            = [Yield (clock st + d_get tk + d_enc tk) (chunk jpeg), Raise ZeroDivisionError]"
    show ?thesis unfolding e using d by simp
  next
    fix e assume e: "mjpeg_loop enc fps ss sf q st (tk # tks) = [Raise e]"
    show ?thesis unfolding e by simp
  qed
qed

lemma yields_spaced:
  assumes "0 < fps" "\<forall>tk\<in>set tks. 0 \<le> d_get tk \<and> 0 \<le> d_enc tk"
  shows "spaced (1 / real_of_int fps) (yield_times (mjpeg_loop enc fps ss sf q st tks))"
  using assms(2)
proof (induction tks arbitrary: st)
  case Nil
  then show ?case by simp
next
  case (Cons tk tks)
  have r: "\<forall>tk\<in>set tks. 0 \<le> d_get tk \<and> 0 \<le> d_enc tk"
    using Cons.prems by simp
  note ih = Cons.IH [OF r]
  have m: "max 0 (1 / real_of_int fps) = 1 / real_of_int fps" using assms(1) by simp
  from loop_cases [of tk st enc fps ss sf q tks] show ?case
  proof (elim disjE conjE exE)
    fix st'
    assume e: "mjpeg_loop enc fps ss sf q st (tk # tks) = Sleep 0.03 # mjpeg_loop enc fps ss sf q st' tks"
    show ?thesis unfolding e using ih [of st'] by simp
  next
    fix st'
    assume e: "mjpeg_loop enc fps ss sf q st (tk # tks) = mjpeg_loop enc fps ss sf q st' tks"
    show ?thesis unfolding e using ih [of st'] by simp
  next
    fix st' jpeg
    assume c: "clock st' = clock st + d_get tk + d_enc tk + max 0 (1 / real_of_int fps)"
      and e: "mjpeg_loop enc fps ss sf q st (tk # tks)
            = Yield (clock st + d_get tk + d_enc tk) (chunk jpeg)
                # Sleep (max 0 (1 / real_of_int fps)) # mjpeg_loop enc fps ss sf q st' tks"
    have "\<forall>u\<in>set (yield_times (mjpeg_loop enc fps ss sf q st' tks)).
            clock st + d_get tk + d_enc tk + 1 / real_of_int fps \<le> u"
      using yield_times_ge [OF r, of enc fps ss sf q st'] c m by simp
    then have "spaced (1 / real_of_int fps)
          ((clock st + d_get tk + d_enc tk) # yield_times (mjpeg_loop enc fps ss sf q st' tks))"
      using ih [of st'] by (rule spaced_cons)
    then show ?thesis unfolding e by simp
  next
    assume "fps = 0"
    then show ?thesis using assms(1) by simp
  next
    fix e assume e: "mjpeg_loop enc fps ss sf q st (tk # tks) = [Raise e]"
    show ?thesis unfolding e by simp
  qed
qed

lemma sleeps_full_interval:
  assumes "fps \<noteq> 0"
  shows "sleeps_after_yield (mjpeg_loop enc fps ss sf q st tks)
           = map (\<lambda>t. max 0 (1 / real_of_int fps)) (yield_times (mjpeg_loop enc fps ss sf q st tks))"
proof (induction tks arbitrary: st)
  case Nil
  then show ?case by simp
next
  case (Cons tk tks)
  from loop_cases [of tk st enc fps ss sf q tks] show ?case
  proof (elim disjE conjE exE)
    fix st'
    assume e: "mjpeg_loop enc fps ss sf q st (tk # tks) = Sleep 0.03 # mjpeg_loop enc fps ss sf q st' tks"
    show ?thesis unfolding e using Cons.IH [of st'] by simp
  next
    fix st'
    assume e: "mjpeg_loop enc fps ss sf q st (tk # tks) = mjpeg_loop enc fps ss sf q st' tks"
    show ?thesis unfolding e using Cons.IH [of st'] by simp
  next
    fix st' jpeg
    assume e: "mjpeg_loop enc fps ss sf q st (tk # tks)
            = Yield (clock st + d_get tk + d_enc tk) (chunk jpeg)
                # Sleep (max 0 (1 / real_of_int fps)) # mjpeg_loop enc fps ss sf q st' tks"
    show ?thesis unfolding e using Cons.IH [of st'] by simp
  next
    assume "fps = 0"
    then show ?thesis using assms by simp
  next
    fix e assume e: "mjpeg_loop enc fps ss sf q st (tk # tks) = [Raise e]"
    show ?thesis unfolding e by simp
  qed
qed

text \<open>
  C2, as the code has it. After every chunk the generator sleeps for
  \<open>max(0, 1.0/fps)\<close>: the whole frame interval, whatever time the frame took. For a
  positive rate that is never less than the remainder \<open>max(0, 1/fps - elapsed)\<close> of the
  specification, and more as soon as producing the frame took any time. So the rate is a
  ceiling: two consecutive chunks are at least \<open>1/fps\<close> apart.
\<close>

theorem paced_by_full_interval:
  "(fps \<noteq> 0 \<longrightarrow>
      sleeps_after_yield (mjpeg_generator enc fps ss sf q t0 tks)
        = map (\<lambda>t. max 0 (1 / real_of_int fps))
            (yield_times (mjpeg_generator enc fps ss sf q t0 tks)))
   \<and> (0 < fps \<and> 0 \<le> elapsed \<longrightarrow>
        spec_pace fps elapsed \<le> max 0 (1 / real_of_int fps)
        \<and> (0 < elapsed \<longrightarrow> spec_pace fps elapsed < max 0 (1 / real_of_int fps)))
   \<and> (0 < fps \<and> (\<forall>tk\<in>set tks. 0 \<le> d_get tk \<and> 0 \<le> d_enc tk) \<longrightarrow>
        spaced (1 / real_of_int fps) (yield_times (mjpeg_generator enc fps ss sf q t0 tks)))"
proof (intro conjI impI)
  assume "fps \<noteq> 0"
  then show "sleeps_after_yield (mjpeg_generator enc fps ss sf q t0 tks)
        = map (\<lambda>t. max 0 (1 / real_of_int fps))
            (yield_times (mjpeg_generator enc fps ss sf q t0 tks))"
    unfolding mjpeg_generator_def by (rule sleeps_full_interval)
next
  assume a: "0 < fps \<and> 0 \<le> elapsed"
  then have p: "0 < 1 / real_of_int fps" by simp
  show "spec_pace fps elapsed \<le> max 0 (1 / real_of_int fps)"
    unfolding spec_pace_def using a p by (simp add: max_def)
  show "spec_pace fps elapsed < max 0 (1 / real_of_int fps)" if "0 < elapsed"
    unfolding spec_pace_def using that p by (simp add: max_def)
next
  assume "0 < fps \<and> (\<forall>tk\<in>set tks. 0 \<le> d_get tk \<and> 0 \<le> d_enc tk)"
  then show "spaced (1 / real_of_int fps) (yield_times (mjpeg_generator enc fps ss sf q t0 tks))"
    unfolding mjpeg_generator_def by (intro yields_spaced) simp_all
qed


text \<open>
  C2 as stated fails: at 12 frames per second, after a frame that took 1/24 s the
  generator sleeps 1/12 s, not the remaining 1/24 s.
\<close>

theorem pace_ignores_elapsed_counterexample:
  "mjpeg_generator jpeg_ok 12 True True 80 0 [a_tick 0 (1 / 24)]
     = [Yield (1 / 24) (chunk ''JPEG''), Sleep (1 / 12)]
   \<and> spec_pace 12 (0 + 1 / 24) = 1 / 24"
  by (simp add: mjpeg_generator_def a_tick_def jpeg_ok_def spec_pace_def Let_def
      cv2_putText_def cv2_imencode_def)


text \<open>Two frames at 12 frames per second.\<close>

theorem paced_by_full_interval_witness:
  "(12::int) \<noteq> 0 \<and> (0::int) < 12 \<and> (0::real) \<le> 1 / 24 \<and> (0::real) < 1 / 24
   \<and> 0 \<le> d_get (a_tick 0 (1 / 24)) \<and> 0 \<le> d_enc (a_tick 0 (1 / 24))
   \<and> 0 \<le> d_get (a_tick (1 / 100) (1 / 50)) \<and> 0 \<le> d_enc (a_tick (1 / 100) (1 / 50))
   \<and> sleeps_after_yield (mjpeg_generator jpeg_ok 12 True True 80 0
                            [a_tick 0 (1 / 24), a_tick (1 / 100) (1 / 50)])
       = [1 / 12, 1 / 12]
   \<and> yield_times (mjpeg_generator jpeg_ok 12 True True 80 0
                     [a_tick 0 (1 / 24), a_tick (1 / 100) (1 / 50)])
       = [1 / 24, 1 / 24 + 1 / 12 + 1 / 100 + 1 / 50]
   \<and> spec_pace 12 (1 / 24) < 1 / 12
   \<and> spaced (1 / 12) (yield_times (mjpeg_generator jpeg_ok 12 True True 80 0
                                      [a_tick 0 (1 / 24), a_tick (1 / 100) (1 / 50)]))"
proof -
  let ?tks = "[a_tick 0 (1 / 24), a_tick (1 / 100) (1 / 50)]"
  have h: "\<forall>tk\<in>set ?tks. 0 \<le> d_get tk \<and> 0 \<le> d_enc tk"
    by (simp add: a_tick_def)
  have y: "yield_times (mjpeg_generator jpeg_ok 12 True True 80 0 ?tks)
             = [1 / 24, 1 / 24 + 1 / 12 + 1 / 100 + 1 / 50]"
    by (simp add: mjpeg_generator_def a_tick_def jpeg_ok_def Let_def cv2_putText_def
        cv2_imencode_def)
  note r = paced_by_full_interval [of 12 jpeg_ok True True 80 0 ?tks "1 / 24"]
  have s: "sleeps_after_yield (mjpeg_generator jpeg_ok 12 True True 80 0 ?tks) = [1 / 12, 1 / 12]"
    using r unfolding y by simp
  have p: "spec_pace 12 (1 / 24) < 1 / 12" using r by simp
  have g: "spaced (1 / 12) (yield_times (mjpeg_generator jpeg_ok 12 True True 80 0 ?tks))"
    using r h by simp
  show ?thesis using h y s p g by simp
qed

end
